theory Spec2Isabelle
  imports Main
begin

section \<open>Memory: array blocks, element pointers, errors\<close>

text \<open>
  The container is a class template over \<open>Type\<close>; the model is polymorphic in \<open>'a\<close>,
  and \<open>Type()\<close> is \<open>default\<close> of the class of that name. For \<open>int\<close>, the
  type the tests instantiate, \<open>Type()\<close> is 0.

  An array obtained from \<open>new Type[n]\<close> is a block of \<open>n\<close> slots. For a
  scalar \<open>Type\<close> the slots start indeterminate: a slot is \<open>None\<close> until it has been
  assigned, and reading it is undefined behaviour. The heap is the list of all blocks ever
  allocated, a block's address being its position; \<open>delete[]\<close> turns the entry into
  \<open>None\<close>.

  \<open>size_t\<close> has 64 bits: a \<open>size_t\<close> is a \<open>nat\<close> below \<open>2^64\<close>, and
  \<open>size_t n\<close> is the value the machine keeps of a result \<open>n\<close>. No array has more
  than \<open>max_array\<close> elements (\<open>PTRDIFF_MAX\<close>, for the smallest \<open>Type\<close>), and the
  free store may refuse less: every function that can reach \<open>new Type[n]\<close> takes
  \<open>room\<close>, the number of elements the free store is ready to give at that call. A refused
  request throws \<open>std::bad_alloc\<close> (\<open>std::bad_array_new_length\<close> is derived from it).

  An element pointer (\<open>Type*\<close>, the iterator type) is the pair of the array it points
  into (\<open>None\<close> for a pointer derived from \<open>nullptr\<close>) and the element index;
  \<open>(None, 0)\<close> is \<open>nullptr\<close>. Forming a pointer never fails in the model, reading or
  writing through it does when it is not inside a live block.

  A parameter of type \<open>const Type&\<close> or \<open>Type&&\<close> is a reference: to an element of
  an array (\<open>Element p\<close>), or to an object that is no array element, such as a local or
  a temporary (\<open>Object x\<close>, its value \<open>x\<close>). The value is read where the callee reads
  it.

  Moving an element is modelled as copying it, as it is for \<open>int\<close>: the slot moved from
  keeps its value (\<open>std::exchange\<close> in \<open>Erase\<close> reads such a slot, and drops what
  it read).
  Assertions are modelled as enabled (the tests rely on \<open>assert\<close>).
\<close>

datatype error = out_of_range | assertion_failed | undefined_behaviour | bad_alloc

type_synonym addr = nat
type_synonym 'a block = "'a option list"
type_synonym 'a heap = "'a block option list"
type_synonym elem_ptr = "addr option \<times> nat"

datatype 'a reference = Object 'a | Element elem_ptr

definition size_t :: "nat \<Rightarrow> nat" where
  "size_t n = n mod 2 ^ 64"

definition max_array :: nat where
  "max_array = 2 ^ 63 - 1"

instantiation int :: default
begin
definition default_int :: int where "default_int = 0"
instance ..
end

definition block_at :: "'a heap \<Rightarrow> addr \<Rightarrow> 'a block option" where
  "block_at h a = (if a < length h then h ! a else None)"

text \<open>\<open>new Type[n]\<close>\<close>
definition new_array :: "nat \<Rightarrow> nat \<Rightarrow> 'a heap \<Rightarrow> error + addr \<times> 'a heap" where
  "new_array room n h =
     (if max_array < n \<or> room < n then Inl bad_alloc
      else Inr (length h, h @ [Some (replicate n None)]))"

text \<open>\<open>delete[] p\<close>\<close>
definition delete_array :: "addr option \<Rightarrow> 'a heap \<Rightarrow> error + 'a heap" where
  "delete_array p h =
     (case p of None \<Rightarrow> Inr h
      | Some a \<Rightarrow> if block_at h a = None then Inl undefined_behaviour else Inr (h[a := None]))"

text \<open>Reading \<open>*p\<close> and assigning \<open>*p = x\<close>.\<close>
definition load :: "elem_ptr \<Rightarrow> 'a heap \<Rightarrow> error + 'a" where
  "load p h =
     (case fst p of None \<Rightarrow> Inl undefined_behaviour
      | Some a \<Rightarrow>
          (case block_at h a of None \<Rightarrow> Inl undefined_behaviour
           | Some xs \<Rightarrow>
               if snd p < length xs
               then (case xs ! snd p of None \<Rightarrow> Inl undefined_behaviour | Some x \<Rightarrow> Inr x)
               else Inl undefined_behaviour))"

definition store :: "elem_ptr \<Rightarrow> 'a \<Rightarrow> 'a heap \<Rightarrow> error + 'a heap" where
  "store p x h =
     (case fst p of None \<Rightarrow> Inl undefined_behaviour
      | Some a \<Rightarrow>
          (case block_at h a of None \<Rightarrow> Inl undefined_behaviour
           | Some xs \<Rightarrow>
               if snd p < length xs then Inr (h[a := Some (xs[snd p := Some x])])
               else Inl undefined_behaviour))"

text \<open>Reading the object a reference parameter refers to.\<close>
definition read_ref :: "'a reference \<Rightarrow> 'a heap \<Rightarrow> error + 'a" where
  "read_ref r h = (case r of Object x \<Rightarrow> Inr x | Element p \<Rightarrow> load p h)"

section \<open>The standard algorithms the container calls\<close>

text \<open>
  Each is the loop of its reference implementation over a pair of pointers. A range whose
  ends are not in one array, or whose end lies before its start, makes the loop run off
  the array: undefined behaviour.
\<close>

text \<open>\<open>std::fill\<close>, which takes the value as \<open>const T&\<close> and reads it at every assignment.\<close>
function std_fill :: "elem_ptr \<Rightarrow> elem_ptr \<Rightarrow> 'a reference \<Rightarrow> 'a heap \<Rightarrow> error + 'a heap" where
  "std_fill first lastp v h =
     (if first = lastp then Inr h
      else if fst first \<noteq> fst lastp \<or> snd lastp < snd first then Inl undefined_behaviour
      else (case read_ref v h of Inl e \<Rightarrow> Inl e
            | Inr x \<Rightarrow>
                (case store first x h of Inl e \<Rightarrow> Inl e
                 | Inr h' \<Rightarrow> std_fill (fst first, Suc (snd first)) lastp v h')))"
  by pat_completeness auto
termination
  by (relation "measure (\<lambda>(first, lastp, v, h). snd lastp - snd first)")
     (auto simp: prod_eq_iff)

declare std_fill.simps [simp del]

text \<open>\<open>std::copy\<close>; \<open>std::move\<close> (the algorithm) is the same loop.\<close>
function std_copy :: "elem_ptr \<Rightarrow> elem_ptr \<Rightarrow> elem_ptr \<Rightarrow> 'a heap \<Rightarrow> error + 'a heap" where
  "std_copy first lastp d_first h =
     (if first = lastp then Inr h
      else if fst first \<noteq> fst lastp \<or> snd lastp < snd first then Inl undefined_behaviour
      else (case load first h of Inl e \<Rightarrow> Inl e
            | Inr x \<Rightarrow>
                (case store d_first x h of Inl e \<Rightarrow> Inl e
                 | Inr h' \<Rightarrow>
                     std_copy (fst first, Suc (snd first)) lastp
                       (fst d_first, Suc (snd d_first)) h')))"
  by pat_completeness auto
termination
  by (relation "measure (\<lambda>(first, lastp, d_first, h). snd lastp - snd first)")
     (auto simp: prod_eq_iff)

declare std_copy.simps [simp del]

definition std_move :: "elem_ptr \<Rightarrow> elem_ptr \<Rightarrow> elem_ptr \<Rightarrow> 'a heap \<Rightarrow> error + 'a heap" where
  "std_move first lastp d_first h = std_copy first lastp d_first h"

text \<open>\<open>std::copy_backward\<close>; \<open>std::move_backward\<close> is the same loop.\<close>
function std_copy_backward ::
  "elem_ptr \<Rightarrow> elem_ptr \<Rightarrow> elem_ptr \<Rightarrow> 'a heap \<Rightarrow> error + 'a heap" where
  "std_copy_backward first lastp d_last h =
     (if first = lastp then Inr h
      else if fst first \<noteq> fst lastp \<or> snd lastp < snd first \<or> snd d_last = 0
      then Inl undefined_behaviour
      else (case load (fst lastp, snd lastp - 1) h of Inl e \<Rightarrow> Inl e
            | Inr x \<Rightarrow>
                (case store (fst d_last, snd d_last - 1) x h of Inl e \<Rightarrow> Inl e
                 | Inr h' \<Rightarrow>
                     std_copy_backward first (fst lastp, snd lastp - 1)
                       (fst d_last, snd d_last - 1) h')))"
  by pat_completeness auto
termination
  by (relation "measure (\<lambda>(first, lastp, d_last, h). snd lastp - snd first)")
     (auto simp: prod_eq_iff)

declare std_copy_backward.simps [simp del]

definition std_move_backward ::
  "elem_ptr \<Rightarrow> elem_ptr \<Rightarrow> elem_ptr \<Rightarrow> 'a heap \<Rightarrow> error + 'a heap" where
  "std_move_backward first lastp d_last h = std_copy_backward first lastp d_last h"

function std_equal :: "elem_ptr \<Rightarrow> elem_ptr \<Rightarrow> elem_ptr \<Rightarrow> 'a heap \<Rightarrow> error + bool" where
  "std_equal first1 last1 first2 h =
     (if first1 = last1 then Inr True
      else if fst first1 \<noteq> fst last1 \<or> snd last1 < snd first1 then Inl undefined_behaviour
      else (case load first1 h of Inl e \<Rightarrow> Inl e
            | Inr x \<Rightarrow>
                (case load first2 h of Inl e \<Rightarrow> Inl e
                 | Inr y \<Rightarrow>
                     if x \<noteq> y then Inr False
                     else std_equal (fst first1, Suc (snd first1)) last1
                            (fst first2, Suc (snd first2)) h)))"
  by pat_completeness auto
termination
  by (relation "measure (\<lambda>(first1, last1, first2, h). snd last1 - snd first1)")
     (auto simp: prod_eq_iff)

declare std_equal.simps [simp del]

function std_lexicographical_compare ::
  "elem_ptr \<Rightarrow> elem_ptr \<Rightarrow> elem_ptr \<Rightarrow> elem_ptr \<Rightarrow> ('a::linorder) heap \<Rightarrow> error + bool" where
  "std_lexicographical_compare first1 last1 first2 last2 h =
     (if first1 = last1 \<or> first2 = last2 then Inr (first1 = last1 \<and> first2 \<noteq> last2)
      else if fst first1 \<noteq> fst last1 \<or> snd last1 < snd first1
              \<or> fst first2 \<noteq> fst last2 \<or> snd last2 < snd first2
      then Inl undefined_behaviour
      else (case load first1 h of Inl e \<Rightarrow> Inl e
            | Inr x \<Rightarrow>
                (case load first2 h of Inl e \<Rightarrow> Inl e
                 | Inr y \<Rightarrow>
                     if x < y then Inr True
                     else if y < x then Inr False
                     else std_lexicographical_compare (fst first1, Suc (snd first1)) last1
                            (fst first2, Suc (snd first2)) last2 h)))"
  by pat_completeness auto
termination
  by (relation "measure (\<lambda>(first1, last1, first2, last2, h). snd last1 - snd first1)")
     (auto simp: prod_eq_iff)

declare std_lexicographical_compare.simps [simp del]

text \<open>
  \<open>std::exchange(obj, new_value)\<close>: \<open>T old_value = std::move(obj);
  obj = std::forward<U>(new_value); return old_value;\<close>
\<close>
definition std_exchange :: "elem_ptr \<Rightarrow> 'a reference \<Rightarrow> 'a heap \<Rightarrow> error + 'a \<times> 'a heap" where
  "std_exchange obj new_value h =
     (case load obj h of Inl e \<Rightarrow> Inl e
      | Inr old_value \<Rightarrow>
          (case read_ref new_value h of Inl e \<Rightarrow> Inl e
           | Inr x \<Rightarrow>
               (case store obj x h of Inl e \<Rightarrow> Inl e
                | Inr h' \<Rightarrow> Inr (old_value, h'))))"

text \<open>Pointer arithmetic and comparison. Two pointers are ordered only inside one array.\<close>

definition std_next :: "elem_ptr \<Rightarrow> elem_ptr" where
  "std_next p = (fst p, Suc (snd p))"

definition std_next_n :: "elem_ptr \<Rightarrow> nat \<Rightarrow> elem_ptr" where
  "std_next_n p n = (fst p, snd p + n)"

definition std_distance :: "elem_ptr \<Rightarrow> elem_ptr \<Rightarrow> nat" where
  "std_distance first lastp = snd lastp - snd first"

definition ptr_less :: "elem_ptr \<Rightarrow> elem_ptr \<Rightarrow> bool" where
  "ptr_less p q \<longleftrightarrow> fst p = fst q \<and> snd p < snd q"

definition ptr_ge :: "elem_ptr \<Rightarrow> elem_ptr \<Rightarrow> bool" where
  "ptr_ge p q \<longleftrightarrow> fst p = fst q \<and> snd q \<le> snd p"

section \<open>array\_ptr.h: the owning buffer\<close>

record ArrayPtr =
  raw_ptr_' :: "addr option"

text \<open>\<open>ArrayPtr() = default\<close>\<close>
definition ArrayPtr_default :: ArrayPtr where
  "ArrayPtr_default = \<lparr>raw_ptr_' = None\<rparr>"

text \<open>\<open>explicit ArrayPtr(size_t size)\<close>\<close>
definition ArrayPtr_new :: "nat \<Rightarrow> nat \<Rightarrow> 'a heap \<Rightarrow> error + ArrayPtr \<times> 'a heap" where
  "ArrayPtr_new room n h =
     (if n > 0
      then (case new_array room n h of Inl e \<Rightarrow> Inl e
            | Inr (a, h') \<Rightarrow> Inr (\<lparr>raw_ptr_' = Some a\<rparr>, h'))
      else Inr (\<lparr>raw_ptr_' = None\<rparr>, h))"

text \<open>\<open>explicit ArrayPtr(Type* raw_ptr)\<close>\<close>
definition ArrayPtr_adopt :: "addr option \<Rightarrow> ArrayPtr" where
  "ArrayPtr_adopt raw_ptr = \<lparr>raw_ptr_' = raw_ptr\<rparr>"

text \<open>
  \<open>ArrayPtr(ArrayPtr&& other)\<close> gives the new object and what is left of \<open>other\<close>;
  \<open>operator=(ArrayPtr&& other)\<close> gives \<open>*this\<close> and \<open>other\<close> after the call. When
  both names denote one object the two handles are equal and the assignment returns early.
\<close>
definition ArrayPtr_move_construct :: "ArrayPtr \<Rightarrow> ArrayPtr \<times> ArrayPtr" where
  "ArrayPtr_move_construct other = (\<lparr>raw_ptr_' = raw_ptr_' other\<rparr>, other\<lparr>raw_ptr_' := None\<rparr>)"

definition ArrayPtr_move_assign :: "ArrayPtr \<Rightarrow> ArrayPtr \<Rightarrow> ArrayPtr \<times> ArrayPtr" where
  "ArrayPtr_move_assign this other =
     (if raw_ptr_' this = raw_ptr_' other then (this, other)
      else (this\<lparr>raw_ptr_' := raw_ptr_' other\<rparr>, other\<lparr>raw_ptr_' := raw_ptr_' this\<rparr>))"

text \<open>\<open>~ArrayPtr()\<close>\<close>
definition ArrayPtr_destroy :: "ArrayPtr \<Rightarrow> 'a heap \<Rightarrow> error + 'a heap" where
  "ArrayPtr_destroy this h = delete_array (raw_ptr_' this) h"

definition Release :: "ArrayPtr \<Rightarrow> addr option \<times> ArrayPtr" where
  "Release this = (raw_ptr_' this, this\<lparr>raw_ptr_' := None\<rparr>)"

text \<open>\<open>operator[]\<close>: the reference \<open>*(raw_ptr_ + index)\<close>, not yet read or written.\<close>
definition ArrayPtr_subscript :: "ArrayPtr \<Rightarrow> nat \<Rightarrow> elem_ptr" where
  "ArrayPtr_subscript this index = (raw_ptr_' this, index)"

text \<open>\<open>explicit operator bool()\<close>\<close>
definition ArrayPtr_bool :: "ArrayPtr \<Rightarrow> bool" where
  "ArrayPtr_bool this \<longleftrightarrow> raw_ptr_' this \<noteq> None"

definition Get :: "ArrayPtr \<Rightarrow> addr option" where
  "Get this = raw_ptr_' this"

definition ArrayPtr_swap :: "ArrayPtr \<Rightarrow> ArrayPtr \<Rightarrow> ArrayPtr \<times> ArrayPtr" where
  "ArrayPtr_swap this other =
     (this\<lparr>raw_ptr_' := raw_ptr_' other\<rparr>, other\<lparr>raw_ptr_' := raw_ptr_' this\<rparr>)"

section \<open>simple\_vector.h: the dynamic array\<close>

function FillByMove :: "elem_ptr \<Rightarrow> elem_ptr \<Rightarrow> ('a::default) heap \<Rightarrow> error + 'a heap" where
  "FillByMove first lastp h =
     (if first = lastp then Inr h
      else if fst first \<noteq> fst lastp \<or> snd lastp < snd first then Inl undefined_behaviour
      else (case store first default h of Inl e \<Rightarrow> Inl e
            | Inr h' \<Rightarrow> FillByMove (fst first, Suc (snd first)) lastp h'))"
  by pat_completeness auto
termination
  by (relation "measure (\<lambda>(first, lastp, h). snd lastp - snd first)")
     (auto simp: prod_eq_iff)

declare FillByMove.simps [simp del]

text \<open>
  \<open>class ReserveProxyObj\<close>; its field \<open>size_\<close> is called \<open>capacity_to_reserve\<close>
  here, as the parameter of its constructor is.
\<close>
datatype ReserveProxyObj = ReserveProxyObj (capacity_to_reserve: nat)

text \<open>The free function \<open>Reserve(size_t)\<close>.\<close>
definition Reserve_proxy :: "nat \<Rightarrow> ReserveProxyObj" where
  "Reserve_proxy n = ReserveProxyObj n"

record SimpleVector =
  size_' :: nat
  capacity_' :: nat
  items_' :: ArrayPtr

definition GetSize :: "SimpleVector \<Rightarrow> nat" where
  "GetSize v = size_' v"

definition GetCapacity :: "SimpleVector \<Rightarrow> nat" where
  "GetCapacity v = capacity_' v"

definition IsEmpty :: "SimpleVector \<Rightarrow> bool" where
  "IsEmpty v \<longleftrightarrow> size_' v = 0"

text \<open>\<open>begin\<close>, \<open>end\<close> (both overloads), \<open>cbegin\<close>, \<open>cend\<close>\<close>
definition begin_iter :: "SimpleVector \<Rightarrow> elem_ptr" where
  "begin_iter v = ArrayPtr_subscript (items_' v) 0"

definition end_iter :: "SimpleVector \<Rightarrow> elem_ptr" where
  "end_iter v = ArrayPtr_subscript (items_' v) (size_' v)"

definition cbegin :: "SimpleVector \<Rightarrow> elem_ptr" where
  "cbegin v = ArrayPtr_subscript (items_' v) 0"

definition cend :: "SimpleVector \<Rightarrow> elem_ptr" where
  "cend v = ArrayPtr_subscript (items_' v) (size_' v)"

text \<open>\<open>operator[]\<close> (both overloads)\<close>
definition operator_subscript :: "nat \<Rightarrow> SimpleVector \<Rightarrow> error + elem_ptr" where
  "operator_subscript index v =
     (if index < size_' v then Inr (ArrayPtr_subscript (items_' v) index)
      else Inl assertion_failed)"

text \<open>
  \<open>At\<close> (both overloads). An exception can be caught, so the outcome comes with the
  array and the heap as the call leaves them.
\<close>
definition At :: "nat \<Rightarrow> SimpleVector \<Rightarrow> 'a heap \<Rightarrow> (error + elem_ptr) \<times> SimpleVector \<times> 'a heap" where
  "At index v h =
     (if index \<ge> size_' v then (Inl out_of_range, v, h)
      else (Inr (ArrayPtr_subscript (items_' v) index), v, h))"

definition Reserve ::
  "nat \<Rightarrow> nat \<Rightarrow> SimpleVector \<Rightarrow> ('a::default) heap \<Rightarrow> error + SimpleVector \<times> 'a heap" where
  "Reserve room new_capacity0 v h =
     (let new_capacity = (if new_capacity0 = 0 then 1 else new_capacity0) in
      if new_capacity \<le> capacity_' v then Inr (v, h)
      else
        (case ArrayPtr_new room new_capacity h of
           Inl e \<Rightarrow> Inl e
         | Inr (temp, h1) \<Rightarrow>
             (case std_move (begin_iter v) (end_iter v) (ArrayPtr_subscript temp 0) h1 of
                Inl e \<Rightarrow> Inl e
              | Inr h2 \<Rightarrow>
                  (case FillByMove (ArrayPtr_subscript temp (size_' v))
                          (ArrayPtr_subscript temp new_capacity) h2 of
                     Inl e \<Rightarrow> Inl e
                   | Inr h3 \<Rightarrow>
                       (let (items, temp') = ArrayPtr_swap (items_' v) temp in
                        case ArrayPtr_destroy temp' h3 of
                          Inl e \<Rightarrow> Inl e
                        | Inr h4 \<Rightarrow>
                            Inr (v\<lparr>items_' := items, capacity_' := new_capacity\<rparr>, h4))))))"

definition Resize ::
  "nat \<Rightarrow> nat \<Rightarrow> SimpleVector \<Rightarrow> ('a::default) heap \<Rightarrow> error + SimpleVector \<times> 'a heap" where
  "Resize room new_size v h =
     (if new_size = size_' v then Inr (v, h)
      else
        (let v1 = (if new_size < size_' v then v\<lparr>size_' := new_size\<rparr> else v) in
         case (if new_size > size_' v1 \<and> new_size \<le> capacity_' v1
               then (let test = ArrayPtr_subscript (items_' v1) 6 in
                     case FillByMove (ArrayPtr_subscript (items_' v1) (size_' v1))
                            (ArrayPtr_subscript (items_' v1) new_size) h of
                       Inl e \<Rightarrow> Inl e
                     | Inr h' \<Rightarrow> Inr (v1\<lparr>size_' := new_size\<rparr>, h'))
               else Inr (v1, h)) of
           Inl e \<Rightarrow> Inl e
         | Inr (v2, h2) \<Rightarrow>
             if new_size > capacity_' v2
             then (case Reserve room (max (size_t (capacity_' v2 * 2)) new_size) v2 h2 of
                     Inl e \<Rightarrow> Inl e
                   | Inr (v3, h3) \<Rightarrow> Inr (v3\<lparr>size_' := new_size\<rparr>, h3))
             else Inr (v2, h2)))"

definition Clear ::
  "nat \<Rightarrow> SimpleVector \<Rightarrow> ('a::default) heap \<Rightarrow> error + SimpleVector \<times> 'a heap" where
  "Clear room v h = Resize room 0 v h"

definition PopBack :: "SimpleVector \<Rightarrow> SimpleVector" where
  "PopBack v = (if size_' v = 0 then v else v\<lparr>size_' := size_' v - 1\<rparr>)"

function Erase_loop :: "elem_ptr \<Rightarrow> elem_ptr \<Rightarrow> elem_ptr \<Rightarrow> 'a heap \<Rightarrow> error + 'a heap" where
  "Erase_loop temp_it next_it cend_it h =
     (if next_it = cend_it then Inr h
      else if fst next_it \<noteq> fst cend_it \<or> snd cend_it < snd next_it
      then Inl undefined_behaviour
      else (case std_exchange temp_it (Element next_it) h of Inl e \<Rightarrow> Inl e
            | Inr (old_value, h') \<Rightarrow>
                Erase_loop (std_next temp_it) (std_next next_it) cend_it h'))"
  by pat_completeness auto
termination
  by (relation "measure (\<lambda>(temp_it, next_it, cend_it, h). snd cend_it - snd next_it)")
     (auto simp: prod_eq_iff std_next_def)

declare Erase_loop.simps [simp del]

definition Erase :: "elem_ptr \<Rightarrow> SimpleVector \<Rightarrow> 'a heap \<Rightarrow> error + elem_ptr \<times> SimpleVector \<times> 'a heap" where
  "Erase pos v h =
     (if \<not> (ptr_ge pos (begin_iter v) \<and> ptr_less pos (end_iter v)) then Inl assertion_failed
      else
        (let it = ArrayPtr_subscript (items_' v) (std_distance (cbegin v) pos);
             next_it = std_next it
         in case Erase_loop it next_it (cend v) h of
              Inl e \<Rightarrow> Inl e
            | Inr h' \<Rightarrow> Inr (it, v\<lparr>size_' := size_' v - 1\<rparr>, h')))"

text \<open>\<open>void PushBack(const Type& value)\<close>\<close>
definition PushBack ::
  "nat \<Rightarrow> 'a reference \<Rightarrow> SimpleVector \<Rightarrow> ('a::default) heap \<Rightarrow> error + SimpleVector \<times> 'a heap" where
  "PushBack room value v h =
     (case (if size_' v = capacity_' v then Reserve room (size_t (capacity_' v * 2)) v h
            else Inr (v, h)) of
        Inl e \<Rightarrow> Inl e
      | Inr (v1, h1) \<Rightarrow>
          (case read_ref value h1 of
             Inl e \<Rightarrow> Inl e
           | Inr x \<Rightarrow>
               (case store (ArrayPtr_subscript (items_' v1) (size_' v1)) x h1 of
                  Inl e \<Rightarrow> Inl e
                | Inr h2 \<Rightarrow> Inr (v1\<lparr>size_' := size_t (size_' v1 + 1)\<rparr>, h2))))"

text \<open>\<open>void PushBack(Type&& value)\<close>\<close>
definition PushBack_move ::
  "nat \<Rightarrow> 'a reference \<Rightarrow> SimpleVector \<Rightarrow> ('a::default) heap \<Rightarrow> error + SimpleVector \<times> 'a heap" where
  "PushBack_move room value v h =
     (case (if size_' v = capacity_' v then Reserve room (size_t (capacity_' v * 2)) v h
            else Inr (v, h)) of
        Inl e \<Rightarrow> Inl e
      | Inr (v1, h1) \<Rightarrow>
          (case std_exchange (ArrayPtr_subscript (items_' v1) (size_' v1)) value h1 of
             Inl e \<Rightarrow> Inl e
           | Inr (old_value, h2) \<Rightarrow> Inr (v1\<lparr>size_' := size_t (size_' v1 + 1)\<rparr>, h2)))"

text \<open>\<open>Iterator Insert(ConstIterator pos, const Type& value)\<close>\<close>
definition Insert ::
  "nat \<Rightarrow> elem_ptr \<Rightarrow> 'a reference \<Rightarrow> SimpleVector \<Rightarrow> ('a::default) heap \<Rightarrow>
   error + elem_ptr \<times> SimpleVector \<times> 'a heap" where
  "Insert room pos value v h =
     (if \<not> (ptr_ge pos (begin_iter v) \<and> ptr_less pos (end_iter v)) then Inl assertion_failed
      else
        (let shift = std_distance (cbegin v) pos in
         case (if size_' v = capacity_' v then Reserve room (size_t (capacity_' v * 2)) v h
               else Inr (v, h)) of
           Inl e \<Rightarrow> Inl e
         | Inr (v1, h1) \<Rightarrow>
             (let pos2 = std_next_n (cbegin v1) shift in
              case std_copy_backward pos2 (end_iter v1) (std_next (end_iter v1)) h1 of
                Inl e \<Rightarrow> Inl e
              | Inr h2 \<Rightarrow>
                  (case read_ref value h2 of
                     Inl e \<Rightarrow> Inl e
                   | Inr x \<Rightarrow>
                       (case store pos2 x h2 of
                          Inl e \<Rightarrow> Inl e
                        | Inr h3 \<Rightarrow>
                            Inr (pos2, v1\<lparr>size_' := size_t (size_' v1 + 1)\<rparr>, h3))))))"

text \<open>\<open>Iterator Insert(ConstIterator pos, Type&& value)\<close>\<close>
definition Insert_move ::
  "nat \<Rightarrow> elem_ptr \<Rightarrow> 'a reference \<Rightarrow> SimpleVector \<Rightarrow> ('a::default) heap \<Rightarrow>
   error + elem_ptr \<times> SimpleVector \<times> 'a heap" where
  "Insert_move room pos value v h =
     (if \<not> (ptr_ge pos (begin_iter v) \<and> ptr_less pos (end_iter v)) then Inl assertion_failed
      else
        (let shift = std_distance (cbegin v) pos in
         case (if size_' v = capacity_' v then Reserve room (size_t (capacity_' v * 2)) v h
               else Inr (v, h)) of
           Inl e \<Rightarrow> Inl e
         | Inr (v1, h1) \<Rightarrow>
             (let pos2 = std_next_n (cbegin v1) shift in
              case std_move_backward pos2 (end_iter v1) (std_next (end_iter v1)) h1 of
                Inl e \<Rightarrow> Inl e
              | Inr h2 \<Rightarrow>
                  (case read_ref value h2 of
                     Inl e \<Rightarrow> Inl e
                   | Inr x \<Rightarrow>
                       (case store pos2 x h2 of
                          Inl e \<Rightarrow> Inl e
                        | Inr h3 \<Rightarrow>
                            Inr (pos2, v1\<lparr>size_' := size_t (size_' v1 + 1)\<rparr>, h3))))))"

definition SimpleVector_swap :: "SimpleVector \<Rightarrow> SimpleVector \<Rightarrow> SimpleVector \<times> SimpleVector" where
  "SimpleVector_swap this rhs =
     (let (i1, i2) = ArrayPtr_swap (items_' this) (items_' rhs) in
      (this\<lparr>items_' := i1, size_' := size_' rhs, capacity_' := capacity_' rhs\<rparr>,
       rhs\<lparr>items_' := i2, size_' := size_' this, capacity_' := capacity_' this\<rparr>))"


subsection \<open>Constructors and assignment\<close>

text \<open>\<open>SimpleVector() noexcept = default\<close>\<close>
definition SimpleVector_default :: SimpleVector where
  "SimpleVector_default = \<lparr>size_' = 0, capacity_' = 0, items_' = ArrayPtr_default\<rparr>"

text \<open>\<open>explicit SimpleVector(size_t size)\<close>\<close>
definition SimpleVector_size ::
  "nat \<Rightarrow> nat \<Rightarrow> ('a::default) heap \<Rightarrow> error + SimpleVector \<times> 'a heap" where
  "SimpleVector_size room n h =
     (case ArrayPtr_new room n h of
        Inl e \<Rightarrow> Inl e
      | Inr (items, h1) \<Rightarrow>
          (case std_fill (ArrayPtr_subscript items 0) (ArrayPtr_subscript items n)
                  (Object default) h1 of
             Inl e \<Rightarrow> Inl e
           | Inr h2 \<Rightarrow> Inr (\<lparr>size_' = n, capacity_' = n, items_' = items\<rparr>, h2)))"

text \<open>\<open>SimpleVector(size_t size, const Type& value)\<close>\<close>
definition SimpleVector_size_value ::
  "nat \<Rightarrow> nat \<Rightarrow> 'a reference \<Rightarrow> 'a heap \<Rightarrow> error + SimpleVector \<times> 'a heap" where
  "SimpleVector_size_value room n value h =
     (case ArrayPtr_new room n h of
        Inl e \<Rightarrow> Inl e
      | Inr (items, h1) \<Rightarrow>
          (case std_fill (ArrayPtr_subscript items 0) (ArrayPtr_subscript items n) value h1 of
             Inl e \<Rightarrow> Inl e
           | Inr h2 \<Rightarrow> Inr (\<lparr>size_' = n, capacity_' = n, items_' = items\<rparr>, h2)))"

text \<open>\<open>SimpleVector(std::initializer_list<Type> init)\<close> and its loop\<close>
fun init_loop :: "ArrayPtr \<Rightarrow> nat \<Rightarrow> 'a list \<Rightarrow> 'a heap \<Rightarrow> error + 'a heap" where
  "init_loop items i [] h = Inr h"
| "init_loop items i (val # rest) h =
     (case store (ArrayPtr_subscript items i) val h of Inl e \<Rightarrow> Inl e
      | Inr h' \<Rightarrow> init_loop items (Suc i) rest h')"

definition SimpleVector_init_list ::
  "nat \<Rightarrow> 'a list \<Rightarrow> 'a heap \<Rightarrow> error + SimpleVector \<times> 'a heap" where
  "SimpleVector_init_list room init h =
     (case ArrayPtr_new room (length init) h of
        Inl e \<Rightarrow> Inl e
      | Inr (items, h1) \<Rightarrow>
          (case init_loop items 0 init h1 of
             Inl e \<Rightarrow> Inl e
           | Inr h2 \<Rightarrow>
               Inr (\<lparr>size_' = length init, capacity_' = length init, items_' = items\<rparr>, h2)))"

text \<open>\<open>SimpleVector(const SimpleVector& other)\<close>\<close>
definition SimpleVector_copy ::
  "nat \<Rightarrow> SimpleVector \<Rightarrow> 'a heap \<Rightarrow> error + SimpleVector \<times> 'a heap" where
  "SimpleVector_copy room other h =
     (case ArrayPtr_new room (size_' other) h of
        Inl e \<Rightarrow> Inl e
      | Inr (temp, h1) \<Rightarrow>
          (case std_copy (begin_iter other) (end_iter other) (ArrayPtr_subscript temp 0) h1 of
             Inl e \<Rightarrow> Inl e
           | Inr h2 \<Rightarrow>
               (let (items, temp') = ArrayPtr_swap ArrayPtr_default temp in
                case ArrayPtr_destroy temp' h2 of
                  Inl e \<Rightarrow> Inl e
                | Inr h3 \<Rightarrow>
                    Inr (\<lparr>size_' = size_' other, capacity_' = size_' other, items_' = items\<rparr>,
                         h3))))"

text \<open>
  \<open>operator=(const SimpleVector& rhs)\<close>. When \<open>rhs\<close> is \<open>*this\<close> the two handles are
  equal and the assertion stops the call, so past it the two are different objects.
\<close>
definition copy_assign ::
  "nat \<Rightarrow> SimpleVector \<Rightarrow> SimpleVector \<Rightarrow> 'a heap \<Rightarrow> error + SimpleVector \<times> 'a heap" where
  "copy_assign room this rhs h =
     (if \<not> (Get (items_' this) \<noteq> Get (items_' rhs)) then Inl assertion_failed
      else
        (case ArrayPtr_new room (size_' rhs) h of
           Inl e \<Rightarrow> Inl e
         | Inr (temp, h1) \<Rightarrow>
             (case std_copy (begin_iter rhs) (end_iter rhs) (ArrayPtr_subscript temp 0) h1 of
                Inl e \<Rightarrow> Inl e
              | Inr h2 \<Rightarrow>
                  (let (items, temp') = ArrayPtr_swap (items_' this) temp in
                   case ArrayPtr_destroy temp' h2 of
                     Inl e \<Rightarrow> Inl e
                   | Inr h3 \<Rightarrow>
                       Inr (this\<lparr>items_' := items, size_' := size_' rhs,
                                 capacity_' := size_' rhs\<rparr>,
                            h3)))))"

text \<open>\<open>SimpleVector(ReserveProxyObj const& obj)\<close>\<close>
definition SimpleVector_reserve ::
  "nat \<Rightarrow> ReserveProxyObj \<Rightarrow> 'a heap \<Rightarrow> error + SimpleVector \<times> 'a heap" where
  "SimpleVector_reserve room obj h =
     (case ArrayPtr_new room (capacity_to_reserve obj) h of
        Inl e \<Rightarrow> Inl e
      | Inr (items, h1) \<Rightarrow>
          Inr (\<lparr>size_' = 0, capacity_' = capacity_to_reserve obj, items_' = items\<rparr>, h1))"

text \<open>\<open>SimpleVector(SimpleVector&& other)\<close>: the new object and what is left of \<open>other\<close>\<close>
definition SimpleVector_move :: "SimpleVector \<Rightarrow> SimpleVector \<times> SimpleVector" where
  "SimpleVector_move other =
     (let (items, other_items) = ArrayPtr_move_assign ArrayPtr_default (items_' other) in
      (\<lparr>size_' = size_' other, capacity_' = capacity_' other, items_' = items\<rparr>,
       other\<lparr>items_' := other_items, size_' := 0, capacity_' := 0\<rparr>))"

subsection \<open>Comparison operators\<close>

definition operator_eq :: "SimpleVector \<Rightarrow> SimpleVector \<Rightarrow> 'a heap \<Rightarrow> error + bool" where
  "operator_eq lhs rhs h =
     (if GetSize lhs \<noteq> GetSize rhs then Inr False
      else std_equal (begin_iter lhs) (end_iter lhs) (begin_iter rhs) h)"

definition operator_neq :: "SimpleVector \<Rightarrow> SimpleVector \<Rightarrow> 'a heap \<Rightarrow> error + bool" where
  "operator_neq lhs rhs h =
     (case operator_eq lhs rhs h of Inl e \<Rightarrow> Inl e
      | Inr b \<Rightarrow> if b then Inr False else map_sum id Not (operator_eq lhs rhs h))"

definition operator_less :: "SimpleVector \<Rightarrow> SimpleVector \<Rightarrow> ('a::linorder) heap \<Rightarrow> error + bool" where
  "operator_less lhs rhs h =
     std_lexicographical_compare (begin_iter lhs) (end_iter lhs) (begin_iter rhs) (end_iter rhs) h"

definition operator_le :: "SimpleVector \<Rightarrow> SimpleVector \<Rightarrow> ('a::linorder) heap \<Rightarrow> error + bool" where
  "operator_le lhs rhs h =
     (case operator_eq lhs rhs h of Inl e \<Rightarrow> Inl e
      | Inr b \<Rightarrow> if b then Inr True else operator_less lhs rhs h)"

definition operator_gt :: "SimpleVector \<Rightarrow> SimpleVector \<Rightarrow> ('a::linorder) heap \<Rightarrow> error + bool" where
  "operator_gt lhs rhs h =
     (case operator_eq lhs rhs h of Inl e \<Rightarrow> Inl e
      | Inr b \<Rightarrow> if b then Inr False else map_sum id Not (operator_less lhs rhs h))"

definition operator_ge :: "SimpleVector \<Rightarrow> SimpleVector \<Rightarrow> ('a::linorder) heap \<Rightarrow> error + bool" where
  "operator_ge lhs rhs h =
     (case operator_eq lhs rhs h of Inl e \<Rightarrow> Inl e
      | Inr b \<Rightarrow> if b then Inr True else operator_gt lhs rhs h)"

section \<open>Well-formed arrays\<close>

text \<open>
  What every operation maintains of an array \<open>v\<close> in a heap \<open>h\<close>: the size is at most
  the capacity, the buffer is live and has at least \<open>capacity_\<close> slots (no buffer at all
  only with capacity 0), and the first \<open>size_\<close> slots hold values. \<open>exact\<close> adds that
  the buffer has exactly \<open>capacity_\<close> slots. \<open>elems\<close> is the sequence of the elements.
\<close>

definition buffer :: "'a heap \<Rightarrow> SimpleVector \<Rightarrow> 'a block option" where
  "buffer h v = (case raw_ptr_' (items_' v) of None \<Rightarrow> Some [] | Some a \<Rightarrow> block_at h a)"

definition well_formed :: "'a heap \<Rightarrow> SimpleVector \<Rightarrow> bool" where
  "well_formed h v \<longleftrightarrow>
     size_' v \<le> capacity_' v \<and>
     (case buffer h v of None \<Rightarrow> False
      | Some xs \<Rightarrow> capacity_' v \<le> length xs \<and> list_all (\<lambda>s. s \<noteq> None) (take (size_' v) xs))"

definition exact :: "'a heap \<Rightarrow> SimpleVector \<Rightarrow> bool" where
  "exact h v \<longleftrightarrow> (case buffer h v of None \<Rightarrow> False | Some xs \<Rightarrow> length xs = capacity_' v)"

definition elems :: "'a heap \<Rightarrow> SimpleVector \<Rightarrow> 'a list" where
  "elems h v = (case buffer h v of None \<Rightarrow> [] | Some xs \<Rightarrow> map the (take (size_' v) xs))"


text \<open>
  \<open>granted room n\<close>: a request for \<open>n\<close> elements is met. \<open>doubled c\<close> is the
  capacity \<open>Reserve(capacity_ * 2)\<close> makes of a capacity \<open>c\<close> that can exist.
  \<open>refers_into r v\<close>: the reference refers into the buffer of \<open>v\<close> itself.
\<close>
definition granted :: "nat \<Rightarrow> nat \<Rightarrow> bool" where
  "granted room n \<longleftrightarrow> n \<le> max_array \<and> n \<le> room"

definition doubled :: "nat \<Rightarrow> nat" where
  "doubled c = (if c = 0 then 1 else c * 2)"

definition refers_into :: "'a reference \<Rightarrow> SimpleVector \<Rightarrow> bool" where
  "refers_into r v \<longleftrightarrow>
     (case r of Object x \<Rightarrow> False | Element p \<Rightarrow> fst p = raw_ptr_' (items_' v))"

text \<open>The heap after a successful \<open>delete[] p\<close>.\<close>
definition heap_free :: "addr option \<Rightarrow> 'a heap \<Rightarrow> 'a heap" where
  "heap_free p h = (case p of None \<Rightarrow> h | Some a \<Rightarrow> h[a := None])"

text \<open>
  \<open>frame p h h'\<close>: going from \<open>h\<close> to \<open>h'\<close> no block was lost and every block
  other than the one at \<open>p\<close> kept its contents.
\<close>
definition frame :: "addr option \<Rightarrow> 'a heap \<Rightarrow> 'a heap \<Rightarrow> bool" where
  "frame p h h' \<longleftrightarrow>
     length h \<le> length h' \<and> (\<forall>b<length h. Some b \<noteq> p \<longrightarrow> block_at h' b = block_at h b)"

text \<open>Two arrays do not share a block.\<close>
definition disjoint :: "SimpleVector \<Rightarrow> SimpleVector \<Rightarrow> bool" where
  "disjoint v u \<longleftrightarrow>
     raw_ptr_' (items_' v) = None \<or> raw_ptr_' (items_' v) \<noteq> raw_ptr_' (items_' u)"

section \<open>Resize: the indices it passes to the buffer\<close>

text \<open>
  The arguments of \<open>items_[...]\<close> (\<open>ArrayPtr::operator[]\<close>) in the branch
  \<open>new_size > size_ && new_size <= capacity_\<close> of \<open>Resize\<close>, in program order:
  \<open>&items_[6]\<close>, then \<open>&items_[size_]\<close> and \<open>&items_[new_size]\<close>, the two ends
  of the range handed to \<open>FillByMove\<close>.
\<close>
definition Resize_fill_subscripts :: "nat \<Rightarrow> SimpleVector \<Rightarrow> nat list" where
  "Resize_fill_subscripts new_size v = [6, size_' v, new_size]"

section \<open>Programs: several arrays in one heap\<close>

text \<open>
  A state of a program that uses the container: the \<open>SimpleVector\<close> objects alive, by
  name, and the heap. \<open>operator=(SimpleVector&&)\<close> is modelled on the objects
  themselves, statement by statement, since \<open>other\<close> may be \<open>*this\<close>.
\<close>

record 'a world =
  vectors :: "nat \<rightharpoonup> SimpleVector"
  memory :: "'a heap"

definition obj :: "(nat \<rightharpoonup> SimpleVector) \<Rightarrow> nat \<Rightarrow> SimpleVector" where
  "obj s x = the (s x)"

definition field_update ::
  "nat \<Rightarrow> (SimpleVector \<Rightarrow> SimpleVector) \<Rightarrow> (nat \<rightharpoonup> SimpleVector) \<Rightarrow> (nat \<rightharpoonup> SimpleVector)" where
  "field_update x f s = (case s x of None \<Rightarrow> s | Some v \<Rightarrow> s(x \<mapsto> f v))"

text \<open>\<open>operator=(SimpleVector&& other)\<close>\<close>
definition move_assign ::
  "nat \<Rightarrow> nat \<Rightarrow> (nat \<rightharpoonup> SimpleVector) \<Rightarrow> (nat \<rightharpoonup> SimpleVector)" where
  "move_assign this other s0 =
     (let (i1, i2) = ArrayPtr_move_assign (items_' (obj s0 this)) (items_' (obj s0 other));
          s1 = field_update other (\<lambda>v. v\<lparr>items_' := i2\<rparr>)
                 (field_update this (\<lambda>v. v\<lparr>items_' := i1\<rparr>) s0);
          s2 = field_update this (\<lambda>v. v\<lparr>size_' := size_' (obj s1 other)\<rparr>) s1;
          s3 = field_update other (\<lambda>v. v\<lparr>size_' := 0\<rparr>) s2;
          s4 = field_update this (\<lambda>v. v\<lparr>capacity_' := capacity_' (obj s3 other)\<rparr>) s3;
          s5 = field_update other (\<lambda>v. v\<lparr>capacity_' := 0\<rparr>) s4
      in s5)"

text \<open>\<open>~SimpleVector()\<close>: the destructor of \<open>items_\<close>\<close>
definition SimpleVector_destroy :: "SimpleVector \<Rightarrow> 'a heap \<Rightarrow> error + 'a heap" where
  "SimpleVector_destroy v h = ArrayPtr_destroy (items_' v) h"

text \<open>
  One step of a program: a constructor, a public operation or a destructor that
  returns. A call stopped by an assertion or by undefined behaviour leaves no state
  behind and is no step; one that throws \<open>std::bad_alloc\<close> does so before it has
  changed anything, which is \<open>observe\<close>. What the free store is ready to give is
  anything at every step. \<open>assign_element\<close> is an assignment through the reference that
  \<open>operator[]\<close> or \<open>At\<close> returned.
\<close>
inductive step :: "('a::default) world \<Rightarrow> 'a world \<Rightarrow> bool" where
  construct_default:
    "vectors w x = None \<Longrightarrow>
     step w (w\<lparr>vectors := (vectors w)(x \<mapsto> SimpleVector_default)\<rparr>)"
| construct_size:
    "vectors w x = None \<Longrightarrow> SimpleVector_size room n (memory w) = Inr (v, h) \<Longrightarrow>
     step w \<lparr>vectors = (vectors w)(x \<mapsto> v), memory = h\<rparr>"
| construct_size_value:
    "vectors w x = None \<Longrightarrow> SimpleVector_size_value room n val (memory w) = Inr (v, h) \<Longrightarrow>
     step w \<lparr>vectors = (vectors w)(x \<mapsto> v), memory = h\<rparr>"
| construct_init_list:
    "vectors w x = None \<Longrightarrow> SimpleVector_init_list room init (memory w) = Inr (v, h) \<Longrightarrow>
     step w \<lparr>vectors = (vectors w)(x \<mapsto> v), memory = h\<rparr>"
| construct_reserve:
    "vectors w x = None \<Longrightarrow> SimpleVector_reserve room proxy (memory w) = Inr (v, h) \<Longrightarrow>
     step w \<lparr>vectors = (vectors w)(x \<mapsto> v), memory = h\<rparr>"
| construct_copy:
    "vectors w x = None \<Longrightarrow> vectors w y = Some other \<Longrightarrow>
     SimpleVector_copy room other (memory w) = Inr (v, h) \<Longrightarrow>
     step w \<lparr>vectors = (vectors w)(x \<mapsto> v), memory = h\<rparr>"
| construct_move:
    "vectors w x = None \<Longrightarrow> vectors w y = Some other \<Longrightarrow>
     SimpleVector_move other = (v, other') \<Longrightarrow>
     step w (w\<lparr>vectors := (vectors w)(y \<mapsto> other', x \<mapsto> v)\<rparr>)"
| assign_copy:
    "vectors w x = Some this \<Longrightarrow> vectors w y = Some rhs \<Longrightarrow>
     copy_assign room this rhs (memory w) = Inr (v, h) \<Longrightarrow>
     step w \<lparr>vectors = (vectors w)(x \<mapsto> v), memory = h\<rparr>"
| assign_move:
    "vectors w x = Some this \<Longrightarrow> vectors w y = Some other \<Longrightarrow>
     step w (w\<lparr>vectors := move_assign x y (vectors w)\<rparr>)"
| observe:
    "step w w"
| call_At:
    "vectors w x = Some v \<Longrightarrow> At i v (memory w) = (r, v', h) \<Longrightarrow>
     step w \<lparr>vectors = (vectors w)(x \<mapsto> v'), memory = h\<rparr>"
| assign_element:
    "vectors w x = Some v \<Longrightarrow> operator_subscript i v = Inr p \<Longrightarrow>
     store p val (memory w) = Inr h \<Longrightarrow>
     step w (w\<lparr>memory := h\<rparr>)"
| call_Clear:
    "vectors w x = Some v \<Longrightarrow> Clear room v (memory w) = Inr (v', h) \<Longrightarrow>
     step w \<lparr>vectors = (vectors w)(x \<mapsto> v'), memory = h\<rparr>"
| call_Resize:
    "vectors w x = Some v \<Longrightarrow> Resize room n v (memory w) = Inr (v', h) \<Longrightarrow>
     step w \<lparr>vectors = (vectors w)(x \<mapsto> v'), memory = h\<rparr>"
| call_PopBack:
    "vectors w x = Some v \<Longrightarrow>
     step w (w\<lparr>vectors := (vectors w)(x \<mapsto> PopBack v)\<rparr>)"
| call_Erase:
    "vectors w x = Some v \<Longrightarrow> Erase pos v (memory w) = Inr (p, v', h) \<Longrightarrow>
     step w \<lparr>vectors = (vectors w)(x \<mapsto> v'), memory = h\<rparr>"
| call_PushBack:
    "vectors w x = Some v \<Longrightarrow> PushBack room val v (memory w) = Inr (v', h) \<Longrightarrow>
     step w \<lparr>vectors = (vectors w)(x \<mapsto> v'), memory = h\<rparr>"
| call_PushBack_move:
    "vectors w x = Some v \<Longrightarrow> PushBack_move room val v (memory w) = Inr (v', h) \<Longrightarrow>
     step w \<lparr>vectors = (vectors w)(x \<mapsto> v'), memory = h\<rparr>"
| call_Insert:
    "vectors w x = Some v \<Longrightarrow> Insert room pos val v (memory w) = Inr (p, v', h) \<Longrightarrow>
     step w \<lparr>vectors = (vectors w)(x \<mapsto> v'), memory = h\<rparr>"
| call_Insert_move:
    "vectors w x = Some v \<Longrightarrow> Insert_move room pos val v (memory w) = Inr (p, v', h) \<Longrightarrow>
     step w \<lparr>vectors = (vectors w)(x \<mapsto> v'), memory = h\<rparr>"
| call_swap:
    "vectors w x = Some this \<Longrightarrow> vectors w y = Some rhs \<Longrightarrow>
     SimpleVector_swap this rhs = (this', rhs') \<Longrightarrow>
     step w (w\<lparr>vectors := (vectors w)(x \<mapsto> this', y \<mapsto> rhs')\<rparr>)"
| call_Reserve:
    "vectors w x = Some v \<Longrightarrow> Reserve room n v (memory w) = Inr (v', h) \<Longrightarrow>
     step w \<lparr>vectors = (vectors w)(x \<mapsto> v'), memory = h\<rparr>"
| destroy:
    "vectors w x = Some v \<Longrightarrow> SimpleVector_destroy v (memory w) = Inr h \<Longrightarrow>
     step w \<lparr>vectors = (vectors w)(x := None), memory = h\<rparr>"

text \<open>The states a program can reach from the start, with no object and nothing allocated.\<close>
inductive reachable :: "('a::default) world \<Rightarrow> bool" where
  reach_start: "reachable \<lparr>vectors = Map.empty, memory = []\<rparr>"
| reach_step: "reachable w \<Longrightarrow> step w w' \<Longrightarrow> reachable w'"

text \<open>
  What holds of every array a program can reach: it is well formed, its capacity is that
  of an array that can exist, and its buffer has exactly \<open>capacity_\<close> slots unless the
  array has size 0 and capacity 0 (then it may still hold the buffer a move-assignment
  left in it).
\<close>
definition good :: "'a heap \<Rightarrow> SimpleVector \<Rightarrow> bool" where
  "good h v \<longleftrightarrow>
     well_formed h v \<and> capacity_' v \<le> max_array \<and>
     (exact h v \<or> size_' v = 0 \<and> capacity_' v = 0)"

text \<open>
  Every live array is good, and no two of them share a block.
\<close>
definition world_inv :: "'a world \<Rightarrow> bool" where
  "world_inv w \<longleftrightarrow>
     (\<forall>x v. vectors w x = Some v \<longrightarrow> good (memory w) v) \<and>
     (\<forall>x y v u. x \<noteq> y \<longrightarrow> vectors w x = Some v \<longrightarrow> vectors w y = Some u \<longrightarrow> disjoint v u)"

section \<open>The heap and the loops\<close>


lemma block_at_update:
  "block_at (h[a := y]) b = (if b = a \<and> a < length h then y else block_at h b)"
  by (auto simp: block_at_def)

lemma block_at_append:
  "block_at (h @ [y]) b = (if b = length h then y else block_at h b)"
  by (auto simp: block_at_def nth_append)

lemma block_at_live: "block_at h a = Some xs \<Longrightarrow> a < length h \<and> h ! a = Some xs"
  by (auto simp: block_at_def split: if_splits)

lemma heap_update_same: "block_at h a = Some xs \<Longrightarrow> h[a := Some xs] = h"
  by (auto dest!: block_at_live simp: list_update_same_conv)

lemma store_live:
  "block_at h a = Some xs \<Longrightarrow> i < length xs \<Longrightarrow>
   store (Some a, i) x h = Inr (h[a := Some (xs[i := Some x])])"
  by (simp add: store_def)

lemma load_live:
  "block_at h a = Some xs \<Longrightarrow> i < length xs \<Longrightarrow> xs ! i = Some x \<Longrightarrow>
   load (Some a, i) h = Inr x"
  by (simp add: load_def)

lemma load_update_other: "fst p \<noteq> Some a \<Longrightarrow> load p (h[a := y]) = load p h"
  by (cases "fst p") (auto simp: load_def block_at_update)

lemma load_append_live:
  assumes "load p h = Inr x"
  shows "load p (h @ g) = Inr x"
proof -
  from assms obtain b where b: "fst p = Some b" "b < length h"
    by (cases "fst p") (auto simp: load_def block_at_def split: if_splits)
  then have "block_at (h @ g) b = block_at h b" by (simp add: block_at_def nth_append)
  with assms b show ?thesis by (simp add: load_def)
qed

lemma load_Inr_live:
  assumes "load p h = Inr x"
  obtains b xs where "fst p = Some b" "block_at h b = Some xs" "snd p < length xs"
    "xs ! snd p = Some x" "b < length h"
proof -
  from assms obtain b where b: "fst p = Some b"
    by (cases "fst p") (auto simp: load_def)
  with assms obtain xs where xs: "block_at h b = Some xs"
    by (cases "block_at h b") (auto simp: load_def)
  from assms b xs have "snd p < length xs" "xs ! snd p = Some x"
    by (auto simp: load_def split: if_splits option.splits)
  moreover from xs have "b < length h" by (auto dest: block_at_live)
  ultimately show ?thesis using b xs that by blast
qed

text \<open>A reference that does not refer into block \<open>a\<close> reads the same after a write to it.\<close>
lemma read_ref_update_other:
  "\<forall>k. r \<noteq> Element (Some a, k) \<Longrightarrow> read_ref r (h[a := y]) = read_ref r h"
proof (cases r)
  case (Object x)
  then show ?thesis by (simp add: read_ref_def)
next
  case (Element p)
  assume "\<forall>k. r \<noteq> Element (Some a, k)"
  with Element have "fst p \<noteq> Some a" by (cases p) auto
  with Element show ?thesis by (simp add: read_ref_def load_update_other)
qed

lemma read_ref_Object [simp]: "read_ref (Object x) h = Inr x"
  by (simp add: read_ref_def)

lemma read_ref_Element [simp]: "read_ref (Element p) h = load p h"
  by (simp add: read_ref_def)

lemma std_fill_empty: "std_fill p p v h = Inr h"
  by (subst std_fill.simps) simp

lemma std_fill_apart:
  "block_at h a = Some xs \<Longrightarrow> i \<le> j \<Longrightarrow> j \<le> length xs \<Longrightarrow>
   read_ref r h = Inr v \<Longrightarrow> \<forall>k. r \<noteq> Element (Some a, k) \<Longrightarrow>
   std_fill (Some a, i) (Some a, j) r h =
     Inr (h[a := Some (take i xs @ replicate (j - i) (Some v) @ drop j xs)])"
proof (induction "j - i" arbitrary: i xs h)
  case 0
  then show ?case by (simp add: heap_update_same std_fill_empty)
next
  case (Suc n)
  from Suc.hyps(2) Suc.prems have lt: "i < j" "i < length xs" by auto
  let ?xs = "xs[i := Some v]"
  let ?h = "h[a := Some ?xs]"
  have live: "block_at ?h a = Some ?xs"
    using Suc.prems(1) by (auto simp: block_at_update dest: block_at_live)
  have rd: "read_ref r ?h = Inr v"
    using Suc.prems(4) read_ref_update_other[OF Suc.prems(5)] by simp
  have step: "std_fill (Some a, i) (Some a, j) r h = std_fill (Some a, Suc i) (Some a, j) r ?h"
    using lt Suc.prems(1,4) by (subst std_fill.simps) (simp add: store_live)
  have "std_fill (Some a, Suc i) (Some a, j) r ?h =
          Inr (?h[a := Some (take (Suc i) ?xs @ replicate (j - Suc i) (Some v) @ drop j ?xs)])"
    using Suc.hyps(2) lt Suc.prems(2,3) by (intro Suc.hyps(1) live rd Suc.prems(5)) auto
  moreover have "take (Suc i) ?xs @ replicate (j - Suc i) (Some v) @ drop j ?xs =
                 take i xs @ replicate (j - i) (Some v) @ drop j xs"
    using lt by (simp add: take_Suc_conv_app_nth replicate_app_Cons_same Suc_diff_Suc
        flip: replicate_Suc)
  ultimately show ?case using step by simp
qed

lemma std_fill_effect:
  "block_at h a = Some xs \<Longrightarrow> i \<le> j \<Longrightarrow> j \<le> length xs \<Longrightarrow>
   std_fill (Some a, i) (Some a, j) (Object v) h =
     Inr (h[a := Some (take i xs @ replicate (j - i) (Some v) @ drop j xs)])"
  by (rule std_fill_apart) simp_all

lemma FillByMove_std_fill: "FillByMove first lastp h = std_fill first lastp (Object default) h"
proof (induction first lastp h rule: FillByMove.induct)
  case (1 first lastp h)
  show ?case
    apply (subst FillByMove.simps)
    apply (subst std_fill.simps)
    using 1 by (auto split: sum.splits)
qed

lemma std_copy_empty: "std_copy p p d h = Inr h"
  by (subst std_copy.simps) simp

lemma std_copy_effect:
  "block_at h a = Some xs \<Longrightarrow> block_at h b = Some ys \<Longrightarrow> a \<noteq> b \<Longrightarrow>
   i \<le> j \<Longrightarrow> j \<le> length xs \<Longrightarrow> \<forall>m. i \<le> m \<and> m < j \<longrightarrow> xs ! m \<noteq> None \<Longrightarrow>
   k + (j - i) \<le> length ys \<Longrightarrow>
   std_copy (Some a, i) (Some a, j) (Some b, k) h =
     Inr (h[b := Some (take k ys @ take (j - i) (drop i xs) @ drop (k + (j - i)) ys)])"
proof (induction "j - i" arbitrary: i k ys h)
  case 0
  then show ?case by (simp add: heap_update_same std_copy_empty)
next
  case (Suc n)
  from Suc.hyps(2) Suc.prems have lt: "i < j" "i < length xs" "k < length ys" by auto
  from Suc.prems lt obtain x where x: "xs ! i = Some x" by auto
  let ?ys = "ys[k := Some x]"
  let ?h = "h[b := Some ?ys]"
  have live: "block_at ?h a = Some xs" "block_at ?h b = Some ?ys"
    using Suc.prems(1,2,3) by (auto simp: block_at_update dest: block_at_live)
  have step: "std_copy (Some a, i) (Some a, j) (Some b, k) h =
              std_copy (Some a, Suc i) (Some a, j) (Some b, Suc k) ?h"
    using lt Suc.prems(1,2) x by (subst std_copy.simps) (simp add: store_live load_live)
  have "std_copy (Some a, Suc i) (Some a, j) (Some b, Suc k) ?h =
          Inr (?h[b := Some (take (Suc k) ?ys @ take (j - Suc i) (drop (Suc i) xs)
                             @ drop (Suc k + (j - Suc i)) ?ys)])"
    using Suc.hyps(2) lt Suc.prems by (intro Suc.hyps(1) live) auto
  moreover have "take (Suc k) ?ys @ take (j - Suc i) (drop (Suc i) xs)
                   @ drop (Suc k + (j - Suc i)) ?ys =
                 take k ys @ take (j - i) (drop i xs) @ drop (k + (j - i)) ys"
  proof -
    have d: "drop i xs = Some x # drop (Suc i) xs"
      using lt x by (simp flip: Cons_nth_drop_Suc)
    have e: "j - i = Suc (j - Suc i)" using lt by simp
    have "take (j - i) (drop i xs) = Some x # take (j - Suc i) (drop (Suc i) xs)"
      unfolding d e by simp
    moreover have "take (Suc k) ?ys = take k ys @ [Some x]"
      using lt by (simp add: take_Suc_conv_app_nth)
    moreover have "drop (Suc k + (j - Suc i)) ?ys = drop (k + (j - i)) ys"
    proof -
      have "Suc k + (j - Suc i) = k + (j - i)" using lt by arith
      then show ?thesis using lt by simp
    qed
    ultimately show ?thesis by simp
  qed
  ultimately show ?case using step by simp
qed


lemma std_copy_backward_effect:
  "block_at h a = Some xs \<Longrightarrow> i \<le> j \<Longrightarrow> j < length xs \<Longrightarrow>
   \<forall>m. i \<le> m \<and> m < j \<longrightarrow> xs ! m \<noteq> None \<Longrightarrow>
   std_copy_backward (Some a, i) (Some a, j) (Some a, Suc j) h =
     Inr (h[a := Some (take (Suc i) xs @ take (j - i) (drop i xs) @ drop (Suc j) xs)])"
proof (induction "j - i" arbitrary: j xs h)
  case 0
  then have "i = j" by simp
  then show ?case
    using "0.prems" by (subst std_copy_backward.simps) (simp add: heap_update_same)
next
  case (Suc n)
  from Suc.hyps(2) Suc.prems have lt: "i < j" "j - 1 < length xs" "i \<le> j - 1" by auto
  from Suc.prems lt obtain x where x: "xs ! (j - 1) = Some x" by fastforce
  let ?xs = "xs[j := Some x]"
  let ?h = "h[a := Some ?xs]"
  have live: "block_at ?h a = Some ?xs"
    using Suc.prems(1) by (auto simp: block_at_update dest: block_at_live)
  have step: "std_copy_backward (Some a, i) (Some a, j) (Some a, Suc j) h =
              std_copy_backward (Some a, i) (Some a, j - 1) (Some a, j) ?h"
    using lt Suc.prems(1,3) x by (subst std_copy_backward.simps) (simp add: store_live load_live)
  have "std_copy_backward (Some a, i) (Some a, j - 1) (Some a, Suc (j - 1)) ?h =
          Inr (?h[a := Some (take (Suc i) ?xs @ take (j - 1 - i) (drop i ?xs)
                             @ drop (Suc (j - 1)) ?xs)])"
    using Suc.hyps(2) lt Suc.prems by (intro Suc.hyps(1) live) auto
  moreover have "take (Suc i) ?xs @ take (j - 1 - i) (drop i ?xs) @ drop (Suc (j - 1)) ?xs =
                 take (Suc i) xs @ take (j - i) (drop i xs) @ drop (Suc j) xs"
  proof -
    have e: "j - i = Suc (j - 1 - i)" using lt by simp
    have "take (j - i) (drop i xs) = take (j - 1 - i) (drop i xs) @ [Some x]"
      unfolding e using lt x Suc.prems(3) by (simp add: take_Suc_conv_app_nth)
    moreover have "drop (Suc (j - 1)) ?xs = Some x # drop (Suc j) xs"
      using lt Suc.prems(3) by (simp flip: Cons_nth_drop_Suc)
    moreover have "take (j - 1 - i) (drop i ?xs) = take (j - 1 - i) (drop i xs)"
      using lt by (simp add: drop_update_swap)
    moreover have "take (Suc i) ?xs = take (Suc i) xs"
      using lt by simp
    ultimately show ?thesis by simp
  qed
  ultimately show ?case using step lt by simp
qed

lemma Erase_loop_effect:
  "block_at h a = Some xs \<Longrightarrow> t < n \<Longrightarrow> n \<le> length xs \<Longrightarrow>
   \<forall>m. t \<le> m \<and> m < n \<longrightarrow> xs ! m \<noteq> None \<Longrightarrow>
   Erase_loop (Some a, t) (Some a, Suc t) (Some a, n) h =
     Inr (h[a := Some (take t xs @ take (n - Suc t) (drop (Suc t) xs) @ drop (n - 1) xs)])"
proof (induction "n - Suc t" arbitrary: t xs h)
  case 0
  then have "Suc t = n" by simp
  then show ?case
    using "0.prems" by (subst Erase_loop.simps) (auto simp: heap_update_same)
next
  case (Suc k)
  from Suc.hyps(2) Suc.prems have lt: "Suc t < n" "Suc t < length xs" "t < length xs" by auto
  from Suc.prems lt obtain x where x: "xs ! Suc t = Some x" by fastforce
  from Suc.prems lt obtain old where old: "xs ! t = Some old" by fastforce
  let ?xs = "xs[t := Some x]"
  let ?h = "h[a := Some ?xs]"
  have live: "block_at ?h a = Some ?xs"
    using Suc.prems(1) by (auto simp: block_at_update dest: block_at_live)
  have step: "Erase_loop (Some a, t) (Some a, Suc t) (Some a, n) h =
              Erase_loop (Some a, Suc t) (Some a, Suc (Suc t)) (Some a, n) ?h"
    using lt Suc.prems(1) x old
    by (subst Erase_loop.simps)
       (simp add: std_exchange_def store_live load_live std_next_def)
  have "Erase_loop (Some a, Suc t) (Some a, Suc (Suc t)) (Some a, n) ?h =
          Inr (?h[a := Some (take (Suc t) ?xs @ take (n - Suc (Suc t)) (drop (Suc (Suc t)) ?xs)
                             @ drop (n - 1) ?xs)])"
    using Suc.hyps(2) lt Suc.prems by (intro Suc.hyps(1) live) auto
  moreover have "take (Suc t) ?xs @ take (n - Suc (Suc t)) (drop (Suc (Suc t)) ?xs)
                   @ drop (n - 1) ?xs =
                 take t xs @ take (n - Suc t) (drop (Suc t) xs) @ drop (n - 1) xs"
  proof -
    have d: "drop (Suc t) xs = Some x # drop (Suc (Suc t)) xs"
      using lt x by (simp flip: Cons_nth_drop_Suc)
    have e: "n - Suc t = Suc (n - Suc (Suc t))" using lt by simp
    have "take (n - Suc t) (drop (Suc t) xs) =
            Some x # take (n - Suc (Suc t)) (drop (Suc (Suc t)) xs)"
      unfolding d e by simp
    moreover have "take (Suc t) ?xs = take t xs @ [Some x]"
      using lt by (simp add: take_Suc_conv_app_nth)
    moreover have "drop (Suc (Suc t)) ?xs = drop (Suc (Suc t)) xs" "drop (n - 1) ?xs = drop (n - 1) xs"
      using lt by simp_all
    ultimately show ?thesis by simp
  qed
  ultimately show ?case using step by simp
qed


lemma std_equal_effect:
  "block_at h a = Some xs \<Longrightarrow> block_at h b = Some ys \<Longrightarrow>
   i \<le> j \<Longrightarrow> j \<le> length xs \<Longrightarrow> k + (j - i) \<le> length ys \<Longrightarrow>
   \<forall>m. i \<le> m \<and> m < j \<longrightarrow> xs ! m \<noteq> None \<Longrightarrow>
   \<forall>m. k \<le> m \<and> m < k + (j - i) \<longrightarrow> ys ! m \<noteq> None \<Longrightarrow>
   std_equal (Some a, i) (Some a, j) (Some b, k) h =
     Inr (map the (take (j - i) (drop i xs)) = map the (take (j - i) (drop k ys)))"
proof (induction "j - i" arbitrary: i k)
  case 0
  then show ?case by (subst std_equal.simps) simp
next
  case (Suc n)
  from Suc.hyps(2) Suc.prems have lt: "i < j" "i < length xs" "k < length ys" by auto
  from Suc.prems lt obtain x where x: "xs ! i = Some x" by auto
  from Suc.prems(7) lt obtain y where y: "ys ! k = Some y"
    by (metis le_refl less_add_same_cancel1 not_None_eq zero_less_diff)
  have dx: "drop i xs = Some x # drop (Suc i) xs"
    using lt x by (simp flip: Cons_nth_drop_Suc)
  have dy: "drop k ys = Some y # drop (Suc k) ys"
    using lt y by (simp flip: Cons_nth_drop_Suc)
  have e: "j - i = Suc (j - Suc i)" using lt by simp
  have step: "std_equal (Some a, i) (Some a, j) (Some b, k) h =
              (if x \<noteq> y then Inr False
               else std_equal (Some a, Suc i) (Some a, j) (Some b, Suc k) h)"
    using lt Suc.prems(1,2) x y by (subst std_equal.simps) (simp add: load_live)
  have "std_equal (Some a, Suc i) (Some a, j) (Some b, Suc k) h =
          Inr (map the (take (j - Suc i) (drop (Suc i) xs)) =
               map the (take (j - Suc i) (drop (Suc k) ys)))"
    using Suc.hyps(2) lt Suc.prems by (intro Suc.hyps(1)) auto
  then show ?case unfolding step dx dy e by simp
qed

lemma std_lexicographical_compare_effect:
  "block_at h a = Some xs \<Longrightarrow> block_at h b = Some ys \<Longrightarrow>
   i \<le> j \<Longrightarrow> j \<le> length xs \<Longrightarrow> k \<le> l \<Longrightarrow> l \<le> length ys \<Longrightarrow>
   \<forall>m. i \<le> m \<and> m < j \<longrightarrow> xs ! m \<noteq> None \<Longrightarrow>
   \<forall>m. k \<le> m \<and> m < l \<longrightarrow> ys ! m \<noteq> None \<Longrightarrow>
   std_lexicographical_compare (Some a, i) (Some a, j) (Some b, k) (Some b, l) h =
     Inr (ord_class.lexordp (map the (take (j - i) (drop i xs))) (map the (take (l - k) (drop k ys))))"
proof (induction "j - i" arbitrary: i k)
  case 0
  then have "i = j" by simp
  then show ?case
    using "0.prems" by (subst std_lexicographical_compare.simps) auto
next
  case (Suc n)
  from Suc.hyps(2) Suc.prems have lt: "i < j" "i < length xs" by auto
  from Suc.prems lt obtain x where x: "xs ! i = Some x" by auto
  have dx: "drop i xs = Some x # drop (Suc i) xs"
    using lt x by (simp flip: Cons_nth_drop_Suc)
  have e: "j - i = Suc (j - Suc i)" using lt by simp
  show ?case
  proof (cases "k = l")
    case True
    then show ?thesis
      unfolding dx e by (subst std_lexicographical_compare.simps) (use lt in simp)
  next
    case False
    with Suc.prems have lt2: "k < l" "k < length ys" by auto
    from Suc.prems lt2 obtain y where y: "ys ! k = Some y" by auto
    have dy: "drop k ys = Some y # drop (Suc k) ys"
      using lt2 y by (simp flip: Cons_nth_drop_Suc)
    have e2: "l - k = Suc (l - Suc k)" using lt2 by simp
    have step: "std_lexicographical_compare (Some a, i) (Some a, j) (Some b, k) (Some b, l) h =
              (if x < y then Inr True else if y < x then Inr False
               else std_lexicographical_compare (Some a, Suc i) (Some a, j)
                      (Some b, Suc k) (Some b, l) h)"
      using lt lt2 Suc.prems(1,2) x y
      by (subst std_lexicographical_compare.simps) (simp add: load_live)
    have "std_lexicographical_compare (Some a, Suc i) (Some a, j) (Some b, Suc k) (Some b, l) h =
          Inr (ord_class.lexordp (map the (take (j - Suc i) (drop (Suc i) xs)))
                       (map the (take (l - Suc k) (drop (Suc k) ys))))"
      using Suc.hyps(2) lt lt2 Suc.prems by (intro Suc.hyps(1)) auto
    then show ?thesis unfolding step dx dy e e2 by auto
  qed
qed


lemma ArrayPtr_update_eq: "(p::ArrayPtr)\<lparr>raw_ptr_' := x\<rparr> = \<lparr>raw_ptr_' = x\<rparr>"
  by (cases p) simp

lemma delete_array_live:
  "p = None \<or> (\<exists>a xs. p = Some a \<and> block_at h a = Some xs) \<Longrightarrow>
   delete_array p h = Inr (heap_free p h)"
  by (auto simp: delete_array_def heap_free_def)

lemma buffer_None: "raw_ptr_' (items_' v) = None \<Longrightarrow> buffer h v = Some []"
  by (simp add: buffer_def)

lemma buffer_Some: "raw_ptr_' (items_' v) = Some a \<Longrightarrow> buffer h v = block_at h a"
  by (simp add: buffer_def)

lemma wfE:
  assumes "well_formed h v"
  obtains xs where "buffer h v = Some xs" "size_' v \<le> capacity_' v"
    "capacity_' v \<le> length xs" "\<forall>m<size_' v. xs ! m \<noteq> None"
  using assms by (auto simp: well_formed_def list_all_length split: option.splits)

lemma wfI:
  "buffer h v = Some xs \<Longrightarrow> size_' v \<le> capacity_' v \<Longrightarrow> capacity_' v \<le> length xs \<Longrightarrow>
   \<forall>m<size_' v. xs ! m \<noteq> None \<Longrightarrow> well_formed h v"
  by (auto simp: well_formed_def list_all_length)

lemma wf_ptr:
  "well_formed h v \<Longrightarrow> 0 < capacity_' v \<Longrightarrow> \<exists>a. raw_ptr_' (items_' v) = Some a"
  by (cases "raw_ptr_' (items_' v)") (auto elim!: wfE simp: buffer_None)


section \<open>Sizes and the free store\<close>

lemma max_array_less: "max_array < 2 ^ 64"
  by (simp add: max_array_def)

lemma size_t_id: "n < 2 ^ 64 \<Longrightarrow> size_t n = n"
  by (simp add: size_t_def)

lemma size_t_double: "c \<le> max_array \<Longrightarrow> size_t (c * 2) = c * 2"
  by (rule size_t_id) (simp add: max_array_def)

lemma size_t_Suc: "n \<le> max_array \<Longrightarrow> size_t (Suc n) = Suc n"
  using size_t_id[of "Suc n"] by (simp add: max_array_def)

lemma ArrayPtr_new_zero: "ArrayPtr_new room 0 h = Inr (\<lparr>raw_ptr_' = None\<rparr>, h)"
  by (simp add: ArrayPtr_new_def)

lemma ArrayPtr_new_granted:
  "0 < n \<Longrightarrow> granted room n \<Longrightarrow>
   ArrayPtr_new room n h = Inr (\<lparr>raw_ptr_' = Some (length h)\<rparr>, h @ [Some (replicate n None)])"
  by (auto simp: ArrayPtr_new_def new_array_def granted_def)

lemma ArrayPtr_new_refused:
  "0 < n \<Longrightarrow> \<not> granted room n \<Longrightarrow> ArrayPtr_new room n h = Inl bad_alloc"
  by (auto simp: ArrayPtr_new_def new_array_def granted_def)

lemma ArrayPtr_new_cases:
  "ArrayPtr_new room n h =
     (if n = 0 then Inr (\<lparr>raw_ptr_' = None\<rparr>, h)
      else if granted room n
      then Inr (\<lparr>raw_ptr_' = Some (length h)\<rparr>, h @ [Some (replicate n None)])
      else Inl bad_alloc)"
  by (simp add: ArrayPtr_new_zero ArrayPtr_new_granted ArrayPtr_new_refused)

section \<open>Reserve and the growth of a full array\<close>

lemma Reserve_noop:
  "(if n = 0 then 1 else n) \<le> capacity_' v \<Longrightarrow> Reserve room n v h = Inr (v, h)"
  by (simp add: Reserve_def Let_def)

lemma Reserve_refused:
  "capacity_' v < (if n = 0 then 1 else n) \<Longrightarrow> \<not> granted room (if n = 0 then 1 else n) \<Longrightarrow>
   Reserve room n v h = Inl bad_alloc"
  by (simp add: Reserve_def Let_def ArrayPtr_new_refused)

lemma Reserve_grow:
  fixes h :: "('a::default) heap"
  assumes "well_formed h v" and xs: "buffer h v = Some xs"
    and n': "n' = (if n = 0 then 1 else n)" and gt: "capacity_' v < n'"
    and gr: "granted room n'"
  shows "Reserve room n v h =
     Inr (v\<lparr>items_' := \<lparr>raw_ptr_' = Some (length h)\<rparr>, capacity_' := n'\<rparr>,
          heap_free (raw_ptr_' (items_' v))
            (h @ [Some (take (size_' v) xs @ replicate (n' - size_' v) (Some default))]))"
proof -
  from assms(1) xs have le: "size_' v \<le> capacity_' v" "capacity_' v \<le> length xs"
    and init: "\<forall>m<size_' v. xs ! m \<noteq> None"
    by (auto elim!: wfE)
  let ?a = "length h"
  let ?h1 = "h @ [Some (replicate n' None)]"
  have new: "ArrayPtr_new room n' h = Inr (\<lparr>raw_ptr_' = Some ?a\<rparr>, ?h1)"
    using gt gr by (simp add: ArrayPtr_new_granted)
  let ?blk = "take (size_' v) xs @ replicate (n' - size_' v) None"
  have moved: "std_move (begin_iter v) (end_iter v) (ArrayPtr_subscript \<lparr>raw_ptr_' = Some ?a\<rparr> 0) ?h1
               = Inr (h @ [Some ?blk])"
  proof (cases "raw_ptr_' (items_' v)")
    case None
    with xs le have "size_' v = 0" by (simp add: buffer_None)
    then show ?thesis
      by (simp add: std_move_def begin_iter_def end_iter_def ArrayPtr_subscript_def std_copy_empty)
  next
    case (Some a)
    with xs have live: "block_at h a = Some xs" by (simp add: buffer_Some)
    then have a: "a < length h" by (auto dest: block_at_live)
    have "std_copy (Some a, 0) (Some a, size_' v) (Some ?a, 0) ?h1 =
           Inr (?h1[?a := Some (take 0 (replicate n' None) @ take (size_' v - 0) (drop 0 xs)
                                @ drop (0 + (size_' v - 0)) (replicate n' None))])"
      using live a le init gt by (intro std_copy_effect) (auto simp: block_at_append)
    then show ?thesis
      using Some by (simp add: std_move_def begin_iter_def end_iter_def ArrayPtr_subscript_def)
  qed
  have filled: "FillByMove (ArrayPtr_subscript \<lparr>raw_ptr_' = Some ?a\<rparr> (size_' v))
                  (ArrayPtr_subscript \<lparr>raw_ptr_' = Some ?a\<rparr> n') (h @ [Some ?blk])
                = Inr (h @ [Some (take (size_' v) xs @ replicate (n' - size_' v) (Some default))])"
  proof -
    have "std_fill (Some ?a, size_' v) (Some ?a, n') (Object default) (h @ [Some ?blk]) =
            Inr ((h @ [Some ?blk])[?a := Some (take (size_' v) ?blk
                   @ replicate (n' - size_' v) (Some default) @ drop n' ?blk)])"
      using le gt by (intro std_fill_effect) (auto simp: block_at_append)
    then show ?thesis
      using le gt by (simp add: FillByMove_std_fill ArrayPtr_subscript_def)
  qed
  have del: "ArrayPtr_destroy \<lparr>raw_ptr_' = raw_ptr_' (items_' v)\<rparr> (h @ [Some ys]) =
              Inr (heap_free (raw_ptr_' (items_' v)) (h @ [Some ys]))" for ys :: "'a block"
  proof -
    have "raw_ptr_' (items_' v) = None \<or>
      (\<exists>a xs'. raw_ptr_' (items_' v) = Some a \<and> block_at (h @ [Some ys]) a = Some xs')"
    proof (cases "raw_ptr_' (items_' v)")
      case (Some a)
      with xs have "block_at h a = Some xs" by (simp add: buffer_Some)
      then show ?thesis
        using Some by (auto simp: block_at_append dest: block_at_live)
    qed simp
    then show ?thesis
      by (simp add: ArrayPtr_destroy_def delete_array_live)
  qed
  show ?thesis
    unfolding Reserve_def Let_def n'[symmetric]
    using gt by (simp add: new moved filled ArrayPtr_swap_def ArrayPtr_update_eq del)
qed


lemma block_at_heap_free:
  "block_at (heap_free p h) b = (if p = Some b then None else block_at h b)"
  by (auto simp: heap_free_def block_at_def split: option.splits)

lemma length_heap_free [simp]: "length (heap_free p h) = length h"
  by (simp add: heap_free_def split: option.splits)

lemma frame_refl: "frame p h h"
  by (simp add: frame_def)

lemma frame_update: "frame (Some a) h (h[a := y])"
  by (simp add: frame_def block_at_update)

lemma frame_grow: "frame p h (heap_free p (h @ [y]))"
  by (auto simp: frame_def block_at_heap_free block_at_append)

lemma frame_grow_update: "frame p h ((heap_free p (h @ [y]))[length h := z])"
  by (auto simp: frame_def block_at_heap_free block_at_append block_at_update)

lemma buffer_live:
  "buffer h v = Some xs \<Longrightarrow> 0 < length xs \<Longrightarrow>
   \<exists>a. raw_ptr_' (items_' v) = Some a \<and> block_at h a = Some xs \<and> a < length h"
  by (cases "raw_ptr_' (items_' v)") (auto simp: buffer_def dest: block_at_live)

lemma buffer_ptr_fresh: "buffer h v = Some xs \<Longrightarrow> raw_ptr_' (items_' v) \<noteq> Some (length h)"
  by (auto simp: buffer_def dest: block_at_live)

lemma wfD:
  "well_formed h v \<Longrightarrow> buffer h v = Some xs \<Longrightarrow>
   size_' v \<le> capacity_' v \<and> capacity_' v \<le> length xs \<and> (\<forall>m<size_' v. xs ! m \<noteq> None)"
  by (auto elim!: wfE)

lemma maybe_grow:
  fixes h :: "('a::default) heap"
  assumes wf: "well_formed h v" and xs: "buffer h v = Some xs"
    and cap: "capacity_' v \<le> max_array"
    and gr: "size_' v = capacity_' v \<Longrightarrow> granted room (doubled (capacity_' v))"
  obtains v1 h1 a ys where
    "(if size_' v = capacity_' v then Reserve room (size_t (capacity_' v * 2)) v h
      else Inr (v, h)) = Inr (v1, h1)"
    "size_' v1 = size_' v"
    "capacity_' v1 = (if size_' v = capacity_' v
                       then (if capacity_' v = 0 then 1 else capacity_' v * 2) else capacity_' v)"
    "raw_ptr_' (items_' v1) = Some a" "block_at h1 a = Some ys" "a < length h1"
    "ys = (if size_' v = capacity_' v
           then take (size_' v) xs @ replicate (capacity_' v1 - size_' v) (Some default) else xs)"
    "capacity_' v1 \<le> length ys"
    "a = (if size_' v = capacity_' v then length h else the (raw_ptr_' (items_' v)))"
    "frame (raw_ptr_' (items_' v)) h h1"
    "size_' v = capacity_' v \<Longrightarrow> length h1 = Suc (length h)"
    "size_' v \<noteq> capacity_' v \<Longrightarrow> h1 = h \<and> v1 = v"
    "\<forall>m<size_' v. ys ! m = xs ! m"
    "size_' v1 < capacity_' v1"
    "size_' v = capacity_' v \<Longrightarrow> h1 = heap_free (raw_ptr_' (items_' v)) (h @ [Some ys])"
    "capacity_' v1 \<le> max_array"
proof (cases "size_' v = capacity_' v")
  case True
  define n' where "n' = (if capacity_' v * 2 = 0 then 1 else capacity_' v * 2)"
  have gt: "capacity_' v < n'" by (simp add: n'_def)
  have n'2: "n' = (if capacity_' v = 0 then 1 else capacity_' v * 2)" by (simp add: n'_def)
  have n'3: "n' = doubled (capacity_' v)" by (simp add: n'2 doubled_def)
  have g: "granted room n'" unfolding n'3 using True by (rule gr)
  have st: "size_t (capacity_' v * 2) = capacity_' v * 2" using cap by (rule size_t_double)
  note R = Reserve_grow[OF wf xs n'_def gt g]
  let ?blk = "take (size_' v) xs @ replicate (n' - size_' v) (Some default)"
  show ?thesis
  proof (rule that[of "v\<lparr>items_' := \<lparr>raw_ptr_' = Some (length h)\<rparr>, capacity_' := n'\<rparr>"
          "heap_free (raw_ptr_' (items_' v)) (h @ [Some ?blk])" "length h" ?blk])
    show "block_at (heap_free (raw_ptr_' (items_' v)) (h @ [Some ?blk])) (length h) = Some ?blk"
      using buffer_ptr_fresh[OF xs] by (simp add: block_at_heap_free block_at_append)
    show "capacity_' (v\<lparr>items_' := \<lparr>raw_ptr_' = Some (length h)\<rparr>, capacity_' := n'\<rparr>) \<le> max_array"
      using g by (simp add: granted_def)
  qed (use True R st n'2 gt wfD[OF wf xs] in \<open>auto simp: frame_grow nth_append\<close>)
next
  case False
  with wfD[OF wf xs] have lt: "size_' v < capacity_' v" "capacity_' v \<le> length xs"
    by auto
  then have "0 < length xs" by (cases xs) auto
  from buffer_live[OF xs this] obtain a where a: "raw_ptr_' (items_' v) = Some a"
    "block_at h a = Some xs" "a < length h" by auto
  show ?thesis
    by (rule that[of v h a xs]) (use False lt a cap in \<open>auto simp: frame_refl\<close>)
qed

lemma grow_refused:
  assumes cap: "capacity_' v \<le> max_array"
    and ng: "\<not> granted room (doubled (capacity_' v))"
  shows "Reserve room (size_t (capacity_' v * 2)) v h = Inl bad_alloc"
proof -
  have st: "size_t (capacity_' v * 2) = capacity_' v * 2" using cap by (rule size_t_double)
  have n: "(if capacity_' v * 2 = 0 then 1 else capacity_' v * 2) = doubled (capacity_' v)"
    by (simp add: doubled_def)
  have gt: "capacity_' v < doubled (capacity_' v)" by (simp add: doubled_def)
  show ?thesis
    unfolding st by (rule Reserve_refused) (simp_all only: n gt ng not_False_eq_True)
qed

text \<open>What a reference parameter gives once the array may have moved to a new buffer.\<close>

lemma read_ref_frame:
  assumes rd: "read_ref r h = Inr x" and ap: "\<not> refers_into r v"
    and fr: "frame (raw_ptr_' (items_' v)) h h1"
  shows "read_ref r h1 = Inr x"
proof (cases r)
  case (Object y)
  with rd show ?thesis by simp
next
  case (Element p)
  with rd have l: "load p h = Inr x" by simp
  show ?thesis
  proof (rule load_Inr_live[OF l], goal_cases)
    case q: (1 b xs)
    from ap Element q(1) have "Some b \<noteq> raw_ptr_' (items_' v)"
      by (auto simp: refers_into_def)
    with fr q(5) have "block_at h1 b = block_at h b" by (simp add: frame_def)
    with q(1-4) Element show ?case by (simp add: load_def)
  qed
qed

lemma read_ref_freed:
  assumes "refers_into r v"
  shows "read_ref r (heap_free (raw_ptr_' (items_' v)) g) = Inl undefined_behaviour"
proof (cases r)
  case (Object y)
  with assms show ?thesis by (simp add: refers_into_def)
next
  case (Element p)
  with assms have e: "fst p = raw_ptr_' (items_' v)" by (simp add: refers_into_def)
  show ?thesis
  proof (cases "raw_ptr_' (items_' v)")
    case None
    with e Element show ?thesis by (simp add: load_def)
  next
    case (Some a)
    have "block_at (heap_free (Some a) g) a = None" by (simp add: block_at_heap_free)
    with e Element Some show ?thesis by (simp add: load_def)
  qed
qed

lemma frame_step:
  "frame p h h1 \<Longrightarrow> p = Some a \<or> length h \<le> a \<Longrightarrow> frame p h (h1[a := y])"
  by (auto simp: frame_def block_at_update)

lemma PushBack_props:
  fixes h :: "('a::default) heap"
  assumes wf: "well_formed h v" and xs: "buffer h v = Some xs"
    and cap: "capacity_' v \<le> max_array"
    and gr: "size_' v = capacity_' v \<Longrightarrow> granted room (doubled (capacity_' v))"
  obtains v' h1 a ys where
    "PushBack room val v h =
       (case read_ref val h1 of Inl e \<Rightarrow> Inl e
        | Inr x \<Rightarrow> Inr (v', h1[a := Some (ys[size_' v := Some x])]))"
    "PushBack_move room val v h =
       (case ys ! size_' v of None \<Rightarrow> Inl undefined_behaviour
        | Some old_value \<Rightarrow>
            (case read_ref val h1 of Inl e \<Rightarrow> Inl e
             | Inr x \<Rightarrow> Inr (v', h1[a := Some (ys[size_' v := Some x])])))"
    "size_' v' = Suc (size_' v)"
    "capacity_' v' = (if size_' v = capacity_' v
                       then (if capacity_' v = 0 then 1 else capacity_' v * 2) else capacity_' v)"
    "ys = (if size_' v = capacity_' v
           then take (size_' v) xs @ replicate (capacity_' v' - size_' v) (Some default)
           else xs)"
    "raw_ptr_' (items_' v') = Some a"
    "raw_ptr_' (items_' v') =
       (if size_' v = capacity_' v then Some (length h) else raw_ptr_' (items_' v))"
    "frame (raw_ptr_' (items_' v)) h h1"
    "length h1 = (if size_' v = capacity_' v then Suc (length h) else length h)"
    "size_' v \<noteq> capacity_' v \<Longrightarrow> h1 = h"
    "size_' v = capacity_' v \<Longrightarrow> h1 = heap_free (raw_ptr_' (items_' v)) (h @ [Some ys])"
    "size_' v < length ys"
    "\<And>x. buffer (h1[a := Some (ys[size_' v := Some x])]) v' = Some (ys[size_' v := Some x])"
    "\<And>x. frame (raw_ptr_' (items_' v)) h (h1[a := Some (ys[size_' v := Some x])])"
    "\<And>x. well_formed (h1[a := Some (ys[size_' v := Some x])]) v'"
    "capacity_' v' \<le> max_array"
proof -
 show ?thesis
 proof (rule maybe_grow[OF wf xs cap gr], goal_cases)
  case 1 then show ?case .
 next
  case g: (2 v1 h1 a ys)
  let ?v = "v1\<lparr>size_' := Suc (size_' v1)\<rparr>"
  have lt: "size_' v < length ys" using g(2,8,14) by simp
  have sz: "size_t (Suc (size_' v1)) = Suc (size_' v1)"
    using g(14,16) by (intro size_t_Suc) simp
  have st: "store (ArrayPtr_subscript (items_' v1) (size_' v1)) x h1 =
              Inr (h1[a := Some (ys[size_' v := Some x])])" for x
    using g lt by (simp add: ArrayPtr_subscript_def store_live)
  have ld: "load (ArrayPtr_subscript (items_' v1) (size_' v1)) h1 =
              (case ys ! size_' v of None \<Rightarrow> Inl undefined_behaviour | Some y \<Rightarrow> Inr y)"
    using g lt by (simp add: ArrayPtr_subscript_def load_def)
  have buf: "buffer (h1[a := Some zs]) ?v = Some zs" for zs
    using g by (simp add: buffer_def block_at_update)
  show ?thesis
  proof (rule that[of ?v h1 a ys])
    show "PushBack room val v h =
       (case read_ref val h1 of Inl e \<Rightarrow> Inl e
        | Inr x \<Rightarrow> Inr (?v, h1[a := Some (ys[size_' v := Some x])]))"
      unfolding PushBack_def g(1) by (simp add: st sz split: sum.splits)
    show "PushBack_move room val v h =
       (case ys ! size_' v of None \<Rightarrow> Inl undefined_behaviour
        | Some old_value \<Rightarrow>
            (case read_ref val h1 of Inl e \<Rightarrow> Inl e
             | Inr x \<Rightarrow> Inr (?v, h1[a := Some (ys[size_' v := Some x])])))"
      unfolding PushBack_move_def g(1)
      by (simp add: std_exchange_def ld st sz split: sum.splits option.splits)
    show "buffer (h1[a := Some (ys[size_' v := Some x])]) ?v = Some (ys[size_' v := Some x])" for x
      by (rule buf)
    show "frame (raw_ptr_' (items_' v)) h (h1[a := Some (ys[size_' v := Some x])])" for x
      using g(10) by (rule frame_step) (use g in \<open>auto split: if_splits\<close>)
    show "well_formed (h1[a := Some (ys[size_' v := Some x])]) ?v" for x
      using buf wfD[OF wf xs] g lt
      by (intro wfI[of _ _ "ys[size_' v := Some x]"]) (auto simp: nth_list_update)
    show "size_' v < length ys" by (rule lt)
  qed (use g in \<open>simp_all split: if_splits\<close>)
 qed
qed

section \<open>Elements and the comparison operators\<close>

lemma elems_buffer: "buffer h v = Some xs \<Longrightarrow> elems h v = map the (take (size_' v) xs)"
  by (simp add: elems_def)

lemma length_elems:
  assumes "well_formed h v"
  shows "length (elems h v) = size_' v"
proof -
  from assms obtain xs where xs: "buffer h v = Some xs" by (rule wfE)
  from wfD[OF assms xs] show ?thesis by (simp add: elems_buffer[OF xs])
qed

lemma elems_nth:
  assumes "well_formed h v" "buffer h v = Some xs" "m < size_' v"
  shows "xs ! m = Some (elems h v ! m)"
proof -
  from wfD[OF assms(1,2)] assms(3) have "xs ! m \<noteq> None" "m < length xs" by auto
  then show ?thesis using assms(3) by (simp add: elems_buffer[OF assms(2)])
qed

lemma well_formed_ptr:
  assumes "well_formed h v" "0 < size_' v"
  obtains a xs where "raw_ptr_' (items_' v) = Some a" "block_at h a = Some xs"
    "buffer h v = Some xs" "size_' v \<le> length xs" "\<forall>m<size_' v. xs ! m \<noteq> None"
proof -
  from assms(1) obtain xs where xs: "buffer h v = Some xs" by (rule wfE)
  note d = wfD[OF assms(1) xs]
  from d assms(2) have "0 < length xs" by (cases xs) auto
  from buffer_live[OF xs this] obtain a where
    "raw_ptr_' (items_' v) = Some a" "block_at h a = Some xs" by blast
  moreover from d have "size_' v \<le> length xs" "\<forall>m<size_' v. xs ! m \<noteq> None" by simp_all
  ultimately show ?thesis using xs that by blast
qed

lemma std_equal_empty: "std_equal p p q h = Inr True"
  by (subst std_equal.simps) simp




lemma operator_eq_elems:
  assumes l: "well_formed h lhs" and r: "well_formed h rhs"
  shows "operator_eq lhs rhs h = Inr (elems h lhs = elems h rhs)"
proof (cases "size_' lhs = size_' rhs")
  case False
  then have "elems h lhs \<noteq> elems h rhs"
    using length_elems[OF l] length_elems[OF r] by metis
  with False show ?thesis by (simp add: operator_eq_def GetSize_def)
next
  case True
  show ?thesis
  proof (cases "size_' lhs = 0")
    case True
    with \<open>size_' lhs = size_' rhs\<close> length_elems[OF l] length_elems[OF r] show ?thesis
      by (simp add: operator_eq_def GetSize_def begin_iter_def end_iter_def std_equal_empty)
  next
    case False
    with True have pos: "0 < size_' lhs" "0 < size_' rhs" by auto
    from well_formed_ptr[OF l pos(1)] obtain a xs where a:
      "raw_ptr_' (items_' lhs) = Some a" "block_at h a = Some xs"
      "buffer h lhs = Some xs" "size_' lhs \<le> length xs" "\<forall>m<size_' lhs. xs ! m \<noteq> None"
      by blast
    from well_formed_ptr[OF r pos(2)] obtain b ys where b:
      "raw_ptr_' (items_' rhs) = Some b" "block_at h b = Some ys"
      "buffer h rhs = Some ys" "size_' rhs \<le> length ys" "\<forall>m<size_' rhs. ys ! m \<noteq> None"
      by blast
    have "std_equal (Some a, 0) (Some a, size_' lhs) (Some b, 0) h =
            Inr (map the (take (size_' lhs - 0) (drop 0 xs)) =
                 map the (take (size_' lhs - 0) (drop 0 ys)))"
      using a b True by (intro std_equal_effect) auto
    then show ?thesis
      using True a b
      by (simp add: operator_eq_def GetSize_def begin_iter_def end_iter_def
          ArrayPtr_subscript_def elems_buffer[OF a(3)] elems_buffer[OF b(3)])
  qed
qed



lemma lexcmp_left_empty:
  "std_lexicographical_compare p p q1 q2 h = Inr (q1 \<noteq> q2)"
  by (subst std_lexicographical_compare.simps) simp

lemma lexcmp_right_empty:
  "std_lexicographical_compare p1 p2 q q h = Inr False"
  by (subst std_lexicographical_compare.simps) simp

lemma operator_less_elems:
  fixes h :: "('a::linorder) heap"
  assumes l: "well_formed h lhs" and r: "well_formed h rhs"
  shows "operator_less lhs rhs h = Inr (ord_class.lexordp (elems h lhs) (elems h rhs))"
proof (cases "size_' lhs = 0")
  case True
  then have e: "elems h lhs = []" using length_elems[OF l] by simp
  have "(elems h rhs \<noteq> []) = (size_' rhs \<noteq> 0)"
    using length_elems[OF r] by (cases "elems h rhs") auto
  then show ?thesis
    using True unfolding e operator_less_def
    by (simp add: lexcmp_left_empty begin_iter_def end_iter_def ArrayPtr_subscript_def)
next
  case False
  then have pos: "0 < size_' lhs" by simp
  from well_formed_ptr[OF l pos] obtain a xs where a:
    "raw_ptr_' (items_' lhs) = Some a" "block_at h a = Some xs"
    "buffer h lhs = Some xs" "size_' lhs \<le> length xs" "\<forall>m<size_' lhs. xs ! m \<noteq> None"
    by blast
  show ?thesis
  proof (cases "size_' rhs = 0")
    case True
    then have e: "elems h rhs = []" using length_elems[OF r] by simp
    show ?thesis
      using True unfolding e operator_less_def
      by (simp add: lexcmp_right_empty begin_iter_def end_iter_def ArrayPtr_subscript_def)
  next
    case False
    then have pos2: "0 < size_' rhs" by simp
    from well_formed_ptr[OF r pos2] obtain b ys where b:
      "raw_ptr_' (items_' rhs) = Some b" "block_at h b = Some ys"
      "buffer h rhs = Some ys" "size_' rhs \<le> length ys" "\<forall>m<size_' rhs. ys ! m \<noteq> None"
      by blast
    have "std_lexicographical_compare (Some a, 0) (Some a, size_' lhs)
            (Some b, 0) (Some b, size_' rhs) h =
            Inr (ord_class.lexordp (map the (take (size_' lhs - 0) (drop 0 xs)))
                 (map the (take (size_' rhs - 0) (drop 0 ys))))"
      using a b by (intro std_lexicographical_compare_effect) auto
    then show ?thesis
      using a b
      by (simp add: operator_less_def begin_iter_def end_iter_def
          ArrayPtr_subscript_def elems_buffer[OF a(3)] elems_buffer[OF b(3)])
  qed
qed

lemma elems_take:
  assumes "buffer h v = Some xs" "buffer h' v' = Some ys" "n \<le> size_' v" "n \<le> size_' v'"
    "\<forall>m<n. ys ! m = xs ! m" "size_' v \<le> length xs" "size_' v' \<le> length ys"
  shows "\<forall>i<n. elems h' v' ! i = elems h v ! i"
  using assms by (simp add: elems_buffer[OF assms(1)] elems_buffer[OF assms(2)])


section \<open>Resize\<close>

lemma Resize_props:
  fixes h :: "('a::default) heap"
  assumes wf: "well_formed h v" and xs: "buffer h v = Some xs"
    and cap: "capacity_' v \<le> max_array"
    and gr: "capacity_' v < n \<Longrightarrow> granted room (max (capacity_' v * 2) n)"
  obtains v' h' where
    "Resize room n v h = Inr (v', h')"
    "size_' v' = n"
    "capacity_' v' = (if n \<le> capacity_' v then capacity_' v else max (capacity_' v * 2) n)"
    "buffer h' v' = Some
       (if n \<le> size_' v then xs
        else if n \<le> capacity_' v
        then take (size_' v) xs @ replicate (n - size_' v) (Some default) @ drop n xs
        else take (size_' v) xs @ replicate (max (capacity_' v * 2) n - size_' v) (Some default))"
    "frame (raw_ptr_' (items_' v)) h h'"
    "raw_ptr_' (items_' v') = (if n \<le> capacity_' v then raw_ptr_' (items_' v) else Some (length h))"
    "length h' = (if n \<le> capacity_' v then length h else Suc (length h))"
    "n = size_' v \<Longrightarrow> v' = v \<and> h' = h"
    "n \<le> size_' v \<Longrightarrow> h' = h"
    "capacity_' v' \<le> max_array"
proof -
  note d = wfD[OF wf xs]
  have st: "size_t (capacity_' v * 2) = capacity_' v * 2" using cap by (rule size_t_double)
  consider (same) "n = size_' v" | (shrink) "n < size_' v"
    | (fill) "size_' v < n" "n \<le> capacity_' v" | (grow) "capacity_' v < n"
    using d by linarith
  then show ?thesis
  proof cases
    case same
    show ?thesis
      by (rule that[of v h]) (use same d xs cap in \<open>auto simp: Resize_def frame_refl\<close>)
  next
    case shrink
    show ?thesis
      by (rule that[of "v\<lparr>size_' := n\<rparr>" h])
         (use shrink d xs cap in \<open>auto simp: Resize_def frame_refl buffer_def\<close>)
  next
    case fill
    with d have "0 < length xs" by (cases xs) auto
    from buffer_live[OF xs this] obtain a where a: "raw_ptr_' (items_' v) = Some a"
      "block_at h a = Some xs" "a < length h" by blast
    let ?ys = "take (size_' v) xs @ replicate (n - size_' v) (Some default) @ drop n xs"
    have f: "FillByMove (ArrayPtr_subscript (items_' v) (size_' v))
               (ArrayPtr_subscript (items_' v) n) h = Inr (h[a := Some ?ys])"
      using a fill d
      by (simp add: FillByMove_std_fill ArrayPtr_subscript_def std_fill_effect)
    show ?thesis
      by (rule that[of "v\<lparr>size_' := n\<rparr>" "h[a := Some ?ys]"])
         (use fill d a f cap in
           \<open>auto simp: Resize_def Let_def frame_update buffer_def block_at_update\<close>)
  next
    case grow
    define n' where "n' = (if max (capacity_' v * 2) n = 0 then 1 else max (capacity_' v * 2) n)"
    have n'2: "n' = max (capacity_' v * 2) n" using grow by (simp add: n'_def)
    have gt: "capacity_' v < n'" using grow by (simp add: n'2)
    have g: "granted room n'" unfolding n'2 using grow by (rule gr)
    note R = Reserve_grow[OF wf xs n'_def gt g]
    let ?blk = "take (size_' v) xs @ replicate (n' - size_' v) (Some default)"
    let ?h = "heap_free (raw_ptr_' (items_' v)) (h @ [Some ?blk])"
    have blk: "block_at ?h (length h) = Some ?blk"
      using buffer_ptr_fresh[OF xs] by (simp add: block_at_heap_free block_at_append)
    have le: "n' \<le> max_array" using g by (simp add: granted_def)
    show ?thesis
      by (rule that[of "v\<lparr>items_' := \<lparr>raw_ptr_' = Some (length h)\<rparr>, capacity_' := n',
                         size_' := n\<rparr>" ?h])
         (use grow d R n'2 blk le in
           \<open>auto simp: Resize_def Let_def st frame_grow buffer_def\<close>)
  qed
qed

lemma Resize_refused:
  fixes h :: "('a::default) heap"
  assumes le: "size_' v \<le> capacity_' v" and cap: "capacity_' v \<le> max_array"
    and gt: "capacity_' v < n" and ng: "\<not> granted room (max (capacity_' v * 2) n)"
  shows "Resize room n v h = Inl bad_alloc"
proof -
  have st: "size_t (capacity_' v * 2) = capacity_' v * 2" using cap by (rule size_t_double)
  have "Reserve room (max (capacity_' v * 2) n) v h = Inl bad_alloc"
    by (rule Reserve_refused) (use gt ng in auto)
  then show ?thesis
    using le gt by (simp add: Resize_def Let_def st)
qed

lemma Resize_well_formed:
  fixes h :: "('a::default) heap"
  assumes wf: "well_formed h v" and cap: "capacity_' v \<le> max_array"
    and r: "Resize room n v h = Inr (v', h')"
  shows "well_formed h' v'"
proof -
  from wf obtain xs where xs: "buffer h v = Some xs" by (rule wfE)
  note d = wfD[OF wf xs]
  have gr: "granted room (max (capacity_' v * 2) n)" if "capacity_' v < n"
  proof (rule ccontr)
    assume "\<not> granted room (max (capacity_' v * 2) n)"
    with d cap that have "Resize room n v h = Inl bad_alloc" by (intro Resize_refused) auto
    with r show False by simp
  qed
  show ?thesis
  proof (rule Resize_props[OF wf xs cap gr], goal_cases)
    case 1 then show ?case .
  next
    case p: (2 w g)
    from p(1) r have e: "v' = w" "h' = g" by simp_all
    show ?case
      unfolding e
      by (rule wfI[OF p(4)]) (use d p(2,3) in \<open>auto simp: nth_append\<close>)
  qed
qed


section \<open>Insert and Erase\<close>

lemma std_move_backward_eq: "std_move_backward = std_copy_backward"
  by (intro ext) (simp add: std_move_backward_def)

lemma Insert_move_eq: "Insert_move room pos val v h = Insert room pos val v h"
  unfolding Insert_move_def Insert_def std_move_backward_eq by (rule refl)

lemma heap_free_append_update:
  "p \<noteq> Some (length h) \<Longrightarrow> (heap_free p (h @ [y]))[length h := z] = heap_free p (h @ [z])"
proof (cases p)
  case None
  then show ?thesis by (simp add: heap_free_def)
next
  case (Some a)
  assume "p \<noteq> Some (length h)"
  with Some have ne: "a \<noteq> length h" by simp
  have "(h @ [y])[a := None, length h := z] = (h @ [y])[length h := z, a := None]"
    using ne by (rule list_update_swap)
  also have "(h @ [y])[length h := z] = h @ [z]" by simp
  finally show ?thesis using Some by (simp add: heap_free_def)
qed

lemma shifted_nth:
  assumes "i < n" "n < length ys" "k < length ys"
  shows "(take (Suc i) ys @ take (n - i) (drop i ys) @ drop (Suc n) ys) ! k =
           (if k \<le> i \<or> n < k then ys ! k else ys ! (k - 1))"
proof -
  define A where "A = take (Suc i) ys"
  define B where "B = take (n - i) (drop i ys)"
  define C where "C = drop (Suc n) ys"
  have lA: "length A = Suc i" using assms by (simp add: A_def)
  have lB: "length B = n - i" using assms by (simp add: B_def)
  have nA: "A ! j = ys ! j" if "j < Suc i" for j using that by (simp add: A_def)
  have nB: "B ! j = ys ! (i + j)" if "j < n - i" for j
    using that assms by (simp add: B_def)
  have nC: "C ! j = ys ! (Suc n + j)" if "Suc n + j < length ys" for j
    using that by (simp add: C_def)
  consider "k \<le> i" | "i < k" "k \<le> n" | "n < k" by linarith
  then have "(A @ B @ C) ! k = (if k \<le> i \<or> n < k then ys ! k else ys ! (k - 1))"
  proof cases
    case 1
    then have "k < Suc i" by simp
    then show ?thesis using 1 by (simp add: nth_append lA nA)
  next
    case 2
    then have a: "\<not> k < Suc i" "k - Suc i < n - i" by auto
    have e: "i + (k - Suc i) = k - 1" using 2 by simp
    have "(A @ B @ C) ! k = B ! (k - Suc i)"
      using a by (simp add: nth_append lA lB)
    also have "\<dots> = ys ! (k - 1)" using nB[OF a(2)] e by simp
    finally show ?thesis using 2 by simp
  next
    case 3
    then have a: "\<not> k < Suc i" "\<not> k - Suc i < n - i" using assms by auto
    have e: "Suc n + (k - Suc i - (n - i)) = k" using 3 assms by simp
    have "(A @ B @ C) ! k = C ! (k - Suc i - (n - i))"
      using a by (simp add: nth_append lA lB)
    also have "\<dots> = ys ! k" using nC[of "k - Suc i - (n - i)"] e assms by simp
    finally show ?thesis using 3 by simp
  qed
  then show ?thesis by (simp only: A_def B_def C_def)
qed

lemma Insert_props:
  fixes h :: "('a::default) heap"
  assumes wf: "well_formed h v" and xs: "buffer h v = Some xs"
    and cap: "capacity_' v \<le> max_array"
    and gr: "size_' v = capacity_' v \<Longrightarrow> granted room (doubled (capacity_' v))"
    and pos: "pos = (raw_ptr_' (items_' v), i)" and i: "i < size_' v"
  obtains p v' h2 a ys zs where
    "Insert room pos val v h =
       (case read_ref val h2 of Inl e \<Rightarrow> Inl e
        | Inr x \<Rightarrow> Inr (p, v', h2[a := Some (zs[i := Some x])]))"
    "size_' v' = Suc (size_' v)"
    "capacity_' v' = (if size_' v = capacity_' v
                       then (if capacity_' v = 0 then 1 else capacity_' v * 2) else capacity_' v)"
    "zs = take (Suc i) ys @ take (size_' v - i) (drop i ys) @ drop (Suc (size_' v)) ys"
    "take (size_' v) ys = take (size_' v) xs" "capacity_' v' \<le> length ys"
    "p = (raw_ptr_' (items_' v'), i)"
    "raw_ptr_' (items_' v') = Some a"
    "raw_ptr_' (items_' v') =
       (if size_' v = capacity_' v then Some (length h) else raw_ptr_' (items_' v))"
    "length ys = (if size_' v = capacity_' v then capacity_' v' else length xs)"
    "block_at h2 a = Some zs"
    "frame (raw_ptr_' (items_' v)) h h2"
    "length h2 = (if size_' v = capacity_' v then Suc (length h) else length h)"
    "size_' v \<noteq> capacity_' v \<Longrightarrow> ys = xs \<and> h2 = h[a := Some zs] \<and> raw_ptr_' (items_' v) = Some a"
    "size_' v = capacity_' v \<Longrightarrow> h2 = heap_free (raw_ptr_' (items_' v)) (h @ [Some zs])"
    "\<And>x. zs[i := Some x] =
       take i ys @ [Some x] @ take (size_' v - i) (drop i ys) @ drop (Suc (size_' v)) ys"
    "\<And>ws. buffer (h2[a := Some ws]) v' = Some ws"
    "\<And>ws. frame (raw_ptr_' (items_' v)) h (h2[a := Some ws])"
    "capacity_' v' \<le> max_array"
    "size_' v < length ys"
proof -
  note d = wfD[OF wf xs]
  show ?thesis
  proof (rule maybe_grow[OF wf xs cap gr], goal_cases)
    case 1 then show ?case .
  next
    case g: (2 v1 h1 a ys)
    have len: "length ys = (if size_' v = capacity_' v then capacity_' v1 else length xs)"
      using g(7,14,2) d by auto
    have tk: "take (size_' v) ys = take (size_' v) xs"
      using g(13) d g(8) g(14) g(2) by (intro nth_take_lemma) auto
    have init: "\<forall>m. i \<le> m \<and> m < size_' v \<longrightarrow> ys ! m \<noteq> None"
      using g(13) d by auto
    have lt: "size_' v < length ys" using g(2,8,14) by simp
    let ?zs = "take (Suc i) ys @ take (size_' v - i) (drop i ys) @ drop (Suc (size_' v)) ys"
    let ?h2 = "h1[a := Some ?zs]"
    have cb: "std_copy_backward (Some a, i) (Some a, size_' v) (Some a, Suc (size_' v)) h1
                = Inr ?h2"
      using g(5) i lt init by (intro std_copy_backward_effect) auto
    have live2: "block_at ?h2 a = Some ?zs"
      using g(6) by (simp add: block_at_update)
    have ilt: "i < length ?zs" using i lt by simp
    have upd: "?zs[i := Some x] =
        take i ys @ [Some x] @ take (size_' v - i) (drop i ys) @ drop (Suc (size_' v)) ys" for x
      using i lt by (simp add: take_Suc_conv_app_nth list_update_append)
    have st: "store (Some a, i) x ?h2 = Inr (?h2[a := Some (?zs[i := Some x])])" for x
      by (rule store_live[OF live2 ilt])
    let ?v = "v1\<lparr>size_' := Suc (size_' v1)\<rparr>"
    have sz: "size_t (Suc (size_' v1)) = Suc (size_' v1)"
      using g(14,16) by (intro size_t_Suc) simp
    have asserted: "ptr_ge pos (begin_iter v) \<and> ptr_less pos (end_iter v)"
      using i by (simp add: pos ptr_ge_def ptr_less_def begin_iter_def end_iter_def
          ArrayPtr_subscript_def)
    have shift: "std_distance (cbegin v) pos = i"
      by (simp add: pos std_distance_def cbegin_def ArrayPtr_subscript_def)
    have pos2: "std_next_n (cbegin v1) i = (Some a, i)"
      using g(4) by (simp add: std_next_n_def cbegin_def ArrayPtr_subscript_def)
    have ends: "end_iter v1 = (Some a, size_' v)" "std_next (end_iter v1) = (Some a, Suc (size_' v))"
      using g(2,4) by (simp_all add: end_iter_def std_next_def ArrayPtr_subscript_def)
    show ?case
    proof (rule that[of "(Some a, i)" ?v ?h2 a ?zs ys])
      show "Insert room pos val v h =
         (case read_ref val ?h2 of Inl e \<Rightarrow> Inl e
          | Inr x \<Rightarrow> Inr ((Some a, i), ?v, ?h2[a := Some (?zs[i := Some x])]))"
        unfolding Insert_def Let_def shift g(1)
        using asserted by (simp add: pos2 ends std_next_def cb st sz split: sum.splits)
      show "buffer (?h2[a := Some ws]) ?v = Some ws" for ws
        using g(4,6) by (simp add: buffer_def block_at_update)
      show fr2: "frame (raw_ptr_' (items_' v)) h ?h2"
        using g(10) by (rule frame_step) (use g d i in \<open>auto split: if_splits\<close>)
      show "frame (raw_ptr_' (items_' v)) h (?h2[a := Some ws])" for ws
        using fr2 by (rule frame_step) (use g d i in \<open>auto split: if_splits\<close>)
      show "length ys = (if size_' v = capacity_' v then capacity_' ?v else length xs)"
        using len by simp
      show "block_at ?h2 a = Some ?zs" by (rule live2)
      show "size_' v \<noteq> capacity_' v \<Longrightarrow>
              ys = xs \<and> ?h2 = h[a := Some ?zs] \<and> raw_ptr_' (items_' v) = Some a"
        using g(4,7,12) by auto
      show "size_' v = capacity_' v \<Longrightarrow>
              ?h2 = heap_free (raw_ptr_' (items_' v)) (h @ [Some ?zs])"
        using g(9,15) buffer_ptr_fresh[OF xs] by (simp add: heap_free_append_update)
      show "?zs[i := Some x] =
        take i ys @ [Some x] @ take (size_' v - i) (drop i ys) @ drop (Suc (size_' v)) ys" for x
        by (rule upd)
      show "size_' v < length ys" by (rule lt)
    qed (use g tk in \<open>simp_all split: if_splits\<close>)
  qed
qed

lemma Insert_refused:
  fixes h :: "('a::default) heap"
  assumes pos: "pos = (raw_ptr_' (items_' v), i)" and i: "i < size_' v"
    and cap: "capacity_' v \<le> max_array" and full: "size_' v = capacity_' v"
    and ng: "\<not> granted room (doubled (capacity_' v))"
  shows "Insert room pos val v h = Inl bad_alloc"
proof -
  have asserted: "ptr_ge pos (begin_iter v) \<and> ptr_less pos (end_iter v)"
    using i by (simp add: pos ptr_ge_def ptr_less_def begin_iter_def end_iter_def
        ArrayPtr_subscript_def)
  show ?thesis
    unfolding Insert_def Let_def
    using asserted full by (simp add: grow_refused[OF cap ng])
qed

lemma PushBack_refused:
  fixes h :: "('a::default) heap"
  assumes cap: "capacity_' v \<le> max_array" and full: "size_' v = capacity_' v"
    and ng: "\<not> granted room (doubled (capacity_' v))"
  shows "PushBack room val v h = Inl bad_alloc" "PushBack_move room val v h = Inl bad_alloc"
  using full by (simp_all add: PushBack_def PushBack_move_def grow_refused[OF cap ng])

lemma Erase_props:
  assumes wf: "well_formed h v" and xs: "buffer h v = Some xs"
    and pos: "pos = (raw_ptr_' (items_' v), i)" and i: "i < size_' v"
  obtains h' where
    "Erase pos v h = Inr (pos, v\<lparr>size_' := size_' v - 1\<rparr>, h')"
    "buffer h' (v\<lparr>size_' := size_' v - 1\<rparr>) =
       Some (take i xs @ take (size_' v - Suc i) (drop (Suc i) xs) @ drop (size_' v - 1) xs)"
    "frame (raw_ptr_' (items_' v)) h h'"
    "length h' = length h"
proof -
  note d = wfD[OF wf xs]
  from d i have "0 < length xs" by (cases xs) auto
  from buffer_live[OF xs this] obtain a where a: "raw_ptr_' (items_' v) = Some a"
    "block_at h a = Some xs" "a < length h" by blast
  let ?ys = "take i xs @ take (size_' v - Suc i) (drop (Suc i) xs) @ drop (size_' v - 1) xs"
  have loop: "Erase_loop (Some a, i) (Some a, Suc i) (Some a, size_' v) h = Inr (h[a := Some ?ys])"
    using a(2) i d by (intro Erase_loop_effect) auto
  have asserted: "ptr_ge pos (begin_iter v) \<and> ptr_less pos (end_iter v)"
    using i by (simp add: pos ptr_ge_def ptr_less_def begin_iter_def end_iter_def
        ArrayPtr_subscript_def)
  have dist: "std_distance (cbegin v) pos = i"
    by (simp add: pos std_distance_def cbegin_def ArrayPtr_subscript_def)
  have pos': "pos = (Some a, i)" using a(1) pos by simp
  show ?thesis
  proof (rule that[of "h[a := Some ?ys]"])
    show "Erase pos v h = Inr (pos, v\<lparr>size_' := size_' v - 1\<rparr>, h[a := Some ?ys])"
      unfolding Erase_def Let_def dist
      using asserted a(1)
      by (simp add: std_next_def cend_def ArrayPtr_subscript_def loop pos')
    show "buffer (h[a := Some ?ys]) (v\<lparr>size_' := size_' v - 1\<rparr>) = Some ?ys"
      using a by (simp add: buffer_def block_at_update)
    show "frame (raw_ptr_' (items_' v)) h (h[a := Some ?ys])"
      using a(1) by (simp add: frame_update)
  qed simp
qed

lemma frame_buffer:
  assumes "frame p h h'" "buffer h w = Some ws"
    "raw_ptr_' (items_' w) = None \<or> raw_ptr_' (items_' w) \<noteq> p"
  shows "buffer h' w = Some ws"
proof (cases "raw_ptr_' (items_' w)")
  case None
  with assms(2) show ?thesis by (simp add: buffer_def)
next
  case (Some b)
  with assms(2) have "block_at h b = Some ws" by (simp add: buffer_def)
  moreover from this have "b < length h" by (auto dest: block_at_live)
  ultimately show ?thesis
    using assms(1,3) Some by (simp add: frame_def buffer_def)
qed



lemma take_length_append: "length L = k \<Longrightarrow> take k (L @ rest) = L"
  by auto

lemma inserted_prefix:
  assumes "i \<le> n" "n \<le> length ys"
  shows "take (Suc n) (take i ys @ [x] @ take (n - i) (drop i ys) @ rest) =
         take i ys @ [x] @ take (n - i) (drop i ys)"
proof -
  have "take (Suc n) ((take i ys @ [x] @ take (n - i) (drop i ys)) @ rest) =
      take i ys @ [x] @ take (n - i) (drop i ys)"
    by (rule take_length_append) (use assms in simp)
  then show ?thesis by simp
qed

lemma erased_prefix:
  assumes "i < n" "n \<le> length xs"
  shows "take (n - 1) (take i xs @ take (n - Suc i) (drop (Suc i) xs) @ rest) =
         take i xs @ take (n - Suc i) (drop (Suc i) xs)"
proof -
  have "take (n - 1) ((take i xs @ take (n - Suc i) (drop (Suc i) xs)) @ rest) =
      take i xs @ take (n - Suc i) (drop (Suc i) xs)"
    by (rule take_length_append) (use assms in simp)
  then show ?thesis by simp
qed


lemma Insert_elems:
  fixes h :: "('a::default) heap"
  assumes wf: "well_formed h v" and xs: "buffer h v = Some xs"
    and cap: "capacity_' v \<le> max_array"
    and gr: "size_' v = capacity_' v \<Longrightarrow> granted room (doubled (capacity_' v))"
    and i: "i < size_' v"
  obtains p v' h2 a zs where
    "Insert room (std_next_n (begin_iter v) i) val v h =
       (case read_ref val h2 of Inl e \<Rightarrow> Inl e
        | Inr x \<Rightarrow> Inr (p, v', h2[a := Some (zs[i := Some x])]))"
    "\<And>x. well_formed (h2[a := Some (zs[i := Some x])]) v'"
    "size_' v' = Suc (size_' v)"
    "capacity_' v' = (if size_' v = capacity_' v
                       then (if capacity_' v = 0 then 1 else capacity_' v * 2) else capacity_' v)"
    "\<And>x. elems (h2[a := Some (zs[i := Some x])]) v' =
           take i (elems h v) @ [x] @ drop i (elems h v)"
    "p = std_next_n (begin_iter v') i"
    "\<And>x. load p (h2[a := Some (zs[i := Some x])]) = Inr x"
    "\<And>x. frame (raw_ptr_' (items_' v)) h (h2[a := Some (zs[i := Some x])])"
    "raw_ptr_' (items_' v') = raw_ptr_' (items_' v) \<or> raw_ptr_' (items_' v') = Some (length h)"
    "frame (raw_ptr_' (items_' v)) h h2"
    "size_' v = capacity_' v \<Longrightarrow> h2 = heap_free (raw_ptr_' (items_' v)) (h @ [Some zs])"
    "size_' v \<noteq> capacity_' v \<Longrightarrow> h2 = h[a := Some zs] \<and> raw_ptr_' (items_' v) = Some a"
    "\<And>x. buffer (h2[a := Some (zs[i := Some x])]) v' = Some (zs[i := Some x])"
    "length zs = (if size_' v = capacity_' v then capacity_' v' else length xs)"
    "capacity_' v' \<le> max_array"
    "block_at h2 a = Some zs"
    "\<And>k. size_' v \<noteq> capacity_' v \<Longrightarrow> k < length xs \<Longrightarrow>
          zs ! k = (if k \<le> i \<or> size_' v < k then xs ! k else xs ! (k - 1))"
proof -
  note d = wfD[OF wf xs]
  have pos: "std_next_n (begin_iter v) i = (raw_ptr_' (items_' v), i)"
    by (simp add: std_next_n_def begin_iter_def ArrayPtr_subscript_def)
  show ?thesis
  proof (rule Insert_props[OF wf xs cap gr pos i, of val], goal_cases)
    case 1 then show ?case .
  next
    case q: (2 p v' h2 a ys zs)
    define W where "W x = take i ys @ [Some x] @ take (size_' v - i) (drop i ys)
                           @ drop (Suc (size_' v)) ys" for x :: 'a
    have zW: "zs[i := Some x] = W x" for x unfolding W_def by (rule q(16))
    have len: "Suc (size_' v) \<le> length ys" using q(20) by simp
    have lW: "length (W x) = length ys" for x using len i by (simp add: W_def)
    have lz: "length zs = length ys" using lW[of undefined] zW[of undefined] by (metis length_list_update)
    have pre: "take (Suc (size_' v)) (W x) = take i ys @ [Some x] @ take (size_' v - i) (drop i ys)"
      for x
      unfolding W_def using i len by (intro inserted_prefix) auto
    have "take i (take (size_' v) ys) = take i (take (size_' v) xs)"
      using q(5) by simp
    then have ti: "take i ys = take i xs"
      using i by (simp add: min_def)
    have "drop i (take (size_' v) ys) = drop i (take (size_' v) xs)"
      using q(5) by simp
    then have di: "take (size_' v - i) (drop i ys) = drop i (take (size_' v) xs)"
      by (simp only: drop_take)
    have buf: "buffer (h2[a := Some (zs[i := Some x])]) v' = Some (W x)" for x
      unfolding zW by (rule q(17))
    have e': "elems (h2[a := Some (zs[i := Some x])]) v' =
                map the (take i xs) @ [x] @ map the (drop i (take (size_' v) xs))" for x
      using q(2) pre[of x] by (simp add: elems_buffer[OF buf] ti di)
    have e: "elems (h2[a := Some (zs[i := Some x])]) v' =
               take i (elems h v) @ [x] @ drop i (elems h v)" for x
      using i by (simp add: e' elems_buffer[OF xs] take_map drop_map min_absorb2)
    have w: "well_formed (h2[a := Some (zs[i := Some x])]) v'" for x
    proof (rule wfI[OF buf])
      show "size_' v' \<le> capacity_' v'" using q(2,3) d by (auto split: if_splits)
      show "capacity_' v' \<le> length (W x)" using q(6) lW by simp
      show "\<forall>m<size_' v'. W x ! m \<noteq> None"
      proof (intro allI impI)
        fix m assume "m < size_' v'"
        then have m: "m < Suc (size_' v)" using q(2) by simp
        have "W x ! m = take (Suc (size_' v)) (W x) ! m" by (rule nth_take[OF m, symmetric])
        also have "\<dots> = (take i ys @ [Some x] @ take (size_' v - i) (drop i ys)) ! m"
          by (simp only: pre)
        also have "\<dots> = (take i xs @ [Some x] @ drop i (take (size_' v) xs)) ! m"
          by (simp only: ti di)
        finally have eq: "W x ! m = (take i xs @ [Some x] @ drop i (take (size_' v) xs)) ! m" .
        have "\<forall>s \<in> set (take i xs @ [Some x] @ drop i (take (size_' v) xs)). s \<noteq> None"
        proof
          fix s assume "s \<in> set (take i xs @ [Some x] @ drop i (take (size_' v) xs))"
          then consider "s \<in> set (take i xs)" | "s = Some x"
            | "s \<in> set (drop i (take (size_' v) xs))" by auto
          then show "s \<noteq> None"
          proof cases
            case 1
            then have "s \<in> set (take (size_' v) xs)"
              using set_take_subset_set_take[of i "size_' v" xs] i by auto
            then show ?thesis using d by (auto simp: in_set_conv_nth)
          next
            case 2 then show ?thesis by simp
          next
            case 3
            then have "s \<in> set (take (size_' v) xs)" by (rule in_set_dropD)
            then show ?thesis using d by (auto simp: in_set_conv_nth)
          qed
        qed
        moreover have "m < length (take i xs @ [Some x] @ drop i (take (size_' v) xs))"
          using m i d by simp
        ultimately show "W x ! m \<noteq> None" unfolding eq using nth_mem by blast
      qed
    qed
    have ld: "load p (h2[a := Some (zs[i := Some x])]) = Inr x" for x
    proof -
      from buf[of x] q(8) have live: "block_at (h2[a := Some (zs[i := Some x])]) a = Some (W x)"
        by (simp add: buffer_def)
      have "i < length (W x)" using i len lW by simp
      moreover have "W x ! i = Some x" using i len by (simp add: W_def nth_append)
      ultimately show ?thesis
        unfolding q(7) q(8) by (intro load_live[OF live])
    qed
    have sh: "zs ! k = (if k \<le> i \<or> size_' v < k then xs ! k else xs ! (k - 1))"
      if "size_' v \<noteq> capacity_' v" "k < length xs" for k
    proof -
      from q(14)[OF that(1)] have ys: "ys = xs" by simp
      show ?thesis
        unfolding q(4) ys by (rule shifted_nth) (use i q(20) ys that in auto)
    qed
    show ?case
    proof (rule that[of p v' h2 a zs])
      show "length zs = (if size_' v = capacity_' v then capacity_' v' else length xs)"
        using lz q(10) by simp
      show "p = std_next_n (begin_iter v') i"
        using q(7) by (simp add: std_next_n_def begin_iter_def ArrayPtr_subscript_def)
      show "raw_ptr_' (items_' v') = raw_ptr_' (items_' v) \<or>
            raw_ptr_' (items_' v') = Some (length h)"
        using q(9) by (auto split: if_splits)
      show "buffer (h2[a := Some (zs[i := Some x])]) v' = Some (zs[i := Some x])" for x
        by (rule q(17))
      show "size_' v \<noteq> capacity_' v \<Longrightarrow>
              h2 = h[a := Some zs] \<and> raw_ptr_' (items_' v) = Some a"
        using q(14) by simp
    qed (use q w e ld sh pos in \<open>simp_all\<close>)
  qed
qed

text \<open>What a call of \<open>Insert\<close> that returned has done, whatever it read as the value.\<close>
lemma Insert_result:
  fixes h :: "('a::default) heap"
  assumes wf: "well_formed h v" and xs: "buffer h v = Some xs"
    and cap: "capacity_' v \<le> max_array"
    and i: "i < size_' v"
    and r: "Insert room (std_next_n (begin_iter v) i) val v h = Inr (p, v', h')"
  obtains x ws where
    "well_formed h' v'"
    "size_' v' = Suc (size_' v)"
    "capacity_' v' = (if size_' v = capacity_' v
                       then (if capacity_' v = 0 then 1 else capacity_' v * 2) else capacity_' v)"
    "elems h' v' = take i (elems h v) @ [x] @ drop i (elems h v)"
    "p = std_next_n (begin_iter v') i"
    "load p h' = Inr x"
    "frame (raw_ptr_' (items_' v)) h h'"
    "raw_ptr_' (items_' v') = raw_ptr_' (items_' v) \<or> raw_ptr_' (items_' v') = Some (length h)"
    "buffer h' v' = Some ws"
    "length ws = (if size_' v = capacity_' v then capacity_' v' else length xs)"
    "capacity_' v' \<le> max_array"
    "size_' v = capacity_' v \<Longrightarrow> granted room (doubled (capacity_' v))"
proof -
  have pos: "std_next_n (begin_iter v) i = (raw_ptr_' (items_' v), i)"
    by (simp add: std_next_n_def begin_iter_def ArrayPtr_subscript_def)
  have gr: "granted room (doubled (capacity_' v))" if "size_' v = capacity_' v"
  proof (rule ccontr)
    assume "\<not> granted room (doubled (capacity_' v))"
    from Insert_refused[OF pos i cap that this, of val h] r show False by simp
  qed
  show ?thesis
  proof (rule Insert_elems[OF wf xs cap gr i, of val], goal_cases)
    case 1 then show ?case .
  next
    case q: (2 p2 v2 h2 a zs)
    show ?case
    proof (cases "read_ref val h2")
      case (Inl e)
      with q(1) r show ?thesis by simp
    next
      case (Inr x)
      with q(1) r have e: "p = p2" "v' = v2" "h' = h2[a := Some (zs[i := Some x])]" by simp_all
      show ?thesis
      proof (rule that[of x "zs[i := Some x]"])
        show "length (zs[i := Some x]) =
              (if size_' v = capacity_' v then capacity_' v' else length xs)"
          using q(14) e by simp
      qed (use q e gr in \<open>simp_all\<close>)
    qed
  qed
qed

text \<open>The same for \<open>PushBack\<close>, either overload.\<close>
lemma PushBack_result:
  fixes h :: "('a::default) heap"
  assumes wf: "well_formed h v" and xs: "buffer h v = Some xs"
    and cap: "capacity_' v \<le> max_array"
    and r: "PushBack room val v h = Inr (v', h') \<or> PushBack_move room val v h = Inr (v', h')"
  obtains x ys where
    "well_formed h' v'"
    "size_' v' = Suc (size_' v)"
    "capacity_' v' = (if size_' v = capacity_' v
                       then (if capacity_' v = 0 then 1 else capacity_' v * 2) else capacity_' v)"
    "buffer h' v' = Some (ys[size_' v := Some x])"
    "ys = (if size_' v = capacity_' v
           then take (size_' v) xs @ replicate (capacity_' v' - size_' v) (Some default)
           else xs)"
    "frame (raw_ptr_' (items_' v)) h h'"
    "raw_ptr_' (items_' v') =
       (if size_' v = capacity_' v then Some (length h) else raw_ptr_' (items_' v))"
    "capacity_' v' \<le> max_array"
    "size_' v < length ys"
proof -
  have gr: "granted room (doubled (capacity_' v))" if "size_' v = capacity_' v"
  proof (rule ccontr)
    assume "\<not> granted room (doubled (capacity_' v))"
    from PushBack_refused[OF cap that this, of val h] r show False by auto
  qed
  show ?thesis
  proof (rule PushBack_props[OF wf xs cap gr, of val], goal_cases)
    case 1 then show ?case .
  next
    case q: (2 v2 h1 a ys)
    from r q(1,2) obtain x where e: "v' = v2" "h' = h1[a := Some (ys[size_' v := Some x])]"
      by (auto split: sum.splits option.splits)
    show ?case
      by (rule that[of ys x]) (use q e in \<open>simp_all\<close>)
  qed
qed

lemma Erase_elems:
  assumes wf: "well_formed h v" and i: "i < size_' v"
  obtains q v' h' where
    "Erase (std_next_n (begin_iter v) i) v h = Inr (q, v', h')"
    "well_formed h' v'"
    "size_' v' = size_' v - 1" "capacity_' v' = capacity_' v" "items_' v' = items_' v"
    "elems h' v' = take i (elems h v) @ drop (Suc i) (elems h v)"
    "q = std_next_n (begin_iter v') i"
    "Suc i < size_' v \<Longrightarrow> load q h' = Inr (elems h v ! Suc i)"
    "Suc i = size_' v \<Longrightarrow> q = end_iter v'"
    "frame (raw_ptr_' (items_' v)) h h'"
    "length h' = length h"
proof -
  from wf obtain xs where xs: "buffer h v = Some xs" by (rule wfE)
  note d = wfD[OF wf xs]
  have pos: "std_next_n (begin_iter v) i = (raw_ptr_' (items_' v), i)"
    by (simp add: std_next_n_def begin_iter_def ArrayPtr_subscript_def)
  let ?v = "v\<lparr>size_' := size_' v - 1\<rparr>"
  let ?zs = "take i xs @ take (size_' v - Suc i) (drop (Suc i) xs) @ drop (size_' v - 1) xs"
  show ?thesis
  proof (rule Erase_props[OF wf xs pos i], goal_cases)
    case q: (1 h')
    have len: "size_' v \<le> length xs" using d by simp
    have pre: "take (size_' v - 1) ?zs = take i xs @ take (size_' v - Suc i) (drop (Suc i) xs)"
      using i len by (rule erased_prefix)
    have dr: "take (size_' v - Suc i) (drop (Suc i) xs) = drop (Suc i) (take (size_' v) xs)"
      by (simp only: drop_take)
    have t: "take i (take (size_' v) xs) = take i xs" using i by (simp add: min_def)
    have e1: "elems h' ?v = map the (take (size_' v - 1) ?zs)"
      using elems_buffer[OF q(2)] by simp
    have e2: "elems h v = map the (take (size_' v) xs)" by (rule elems_buffer[OF xs])
    have "elems h' ?v = map the (take i xs @ take (size_' v - Suc i) (drop (Suc i) xs))"
      by (simp only: e1 pre)
    then have "elems h' ?v = map the (take i xs) @ map the (drop (Suc i) (take (size_' v) xs))"
      by (simp only: dr map_append)
    moreover have "take i (elems h v) @ drop (Suc i) (elems h v) =
        map the (take i xs) @ map the (drop (Suc i) (take (size_' v) xs))"
      by (simp only: e2 take_map drop_map t)
    ultimately have e: "elems h' ?v = take i (elems h v) @ drop (Suc i) (elems h v)"
      by simp
    have "set (take i xs @ drop (Suc i) (take (size_' v) xs)) \<subseteq> set (take (size_' v) xs)"
      using set_take_subset_set_take[of i "size_' v" xs] i set_drop_subset[of "Suc i" "take (size_' v) xs"]
      by auto
    moreover have pre2: "take (size_' v - 1) ?zs = take i xs @ drop (Suc i) (take (size_' v) xs)"
      using pre by (simp only: dr)
    ultimately have sub: "set (take (size_' v - 1) ?zs) \<subseteq> set (take (size_' v) xs)"
      by (simp only: pre2)
    have w: "well_formed h' ?v"
    proof (rule wfI[OF q(2)])
      show "size_' ?v \<le> capacity_' ?v" using d by auto
      show "capacity_' ?v \<le> length ?zs" using d i by auto
      show "\<forall>m<size_' ?v. ?zs ! m \<noteq> None"
      proof (intro allI impI)
        fix m assume "m < size_' ?v"
        then have m: "m < size_' v - 1" by simp
        define P where "P = take (size_' v - 1) ?zs"
        have Peq: "P = take i xs @ take (size_' v - Suc i) (drop (Suc i) xs)"
          unfolding P_def by (rule pre)
        have "length P = size_' v - 1" unfolding Peq using i len by simp
        then have "m < length P" using m by simp
        then have "P ! m \<in> set P" by (rule nth_mem)
        moreover have "set P \<subseteq> set (take (size_' v) xs)" unfolding P_def by (rule sub)
        moreover have "?zs ! m = P ! m" unfolding P_def by (rule nth_take[OF m, symmetric])
        ultimately have "?zs ! m \<in> set (take (size_' v) xs)" by auto
        then have "?zs ! m \<in> set (take (size_' v) xs)" .
        moreover have "\<forall>s \<in> set (take (size_' v) xs). s \<noteq> None"
          using d by (auto simp: in_set_conv_nth)
        ultimately show "?zs ! m \<noteq> None" by blast
      qed
    qed
    have ld: "load (std_next_n (begin_iter v) i) h' = Inr (elems h v ! Suc i)" if s: "Suc i < size_' v"
    proof -
      from d i have "0 < length xs" by (cases xs) auto
      from buffer_live[OF xs this] obtain a where a: "raw_ptr_' (items_' v) = Some a" by blast
      with q(2) have live: "block_at h' a = Some ?zs" by (simp add: buffer_def)
      have l: "length (take i xs) = i" using i len by simp
      have "?zs ! i = xs ! Suc i"
        using s len i by (simp add: nth_append l)
      moreover have "xs ! Suc i = Some (elems h v ! Suc i)"
        by (rule elems_nth[OF wf xs s])
      moreover have "i < length ?zs" using i len by simp
      ultimately show ?thesis
        unfolding pos a by (intro load_live[OF live]) simp_all
    qed
    show ?case
      by (rule that[of "std_next_n (begin_iter v) i" ?v h'])
         (use q w e ld in \<open>auto simp: pos std_next_n_def begin_iter_def end_iter_def
             ArrayPtr_subscript_def\<close>)
  qed
qed


section \<open>Constructors and copy assignment\<close>

lemma append_update_last: "(h @ [x])[length h := y] = h @ [y]"
  by simp

lemma read_ref_new_block:
  "read_ref r (h @ [Some (replicate n None)]) = read_ref r h"
proof (cases r)
  case (Object x)
  then show ?thesis by simp
next
  case (Element p)
  show ?thesis
  proof (cases "fst p")
    case None
    with Element show ?thesis by (simp add: load_def)
  next
    case (Some b)
    show ?thesis
    proof (cases "b = length h")
      case True
      with Element Some show ?thesis
        by (simp add: load_def block_at_append block_at_def)
    next
      case False
      with Element Some show ?thesis by (simp add: load_def block_at_append)
    qed
  qed
qed

lemma fill_new_block:
  assumes n: "0 < n"
  shows "std_fill (Some (length h), 0) (Some (length h), n) r (h @ [Some (replicate n None)]) =
     (case read_ref r h of Inl e \<Rightarrow> Inl e
      | Inr x \<Rightarrow> Inr (h @ [Some (replicate n (Some x))]))"
proof (cases "read_ref r h")
  case (Inl e)
  then show ?thesis
    using n by (subst std_fill.simps) (simp add: read_ref_new_block)
next
  case (Inr x)
  have ap: "\<forall>k. r \<noteq> Element (Some (length h), k)"
  proof (intro allI notI)
    fix k assume "r = Element (Some (length h), k)"
    with Inr show False by (simp add: load_def block_at_def)
  qed
  have rd: "read_ref r (h @ [Some (replicate n None)]) = Inr x"
    using Inr by (simp add: read_ref_new_block)
  have "std_fill (Some (length h), 0) (Some (length h), n) r (h @ [Some (replicate n None)]) =
        Inr ((h @ [Some (replicate n None)])[length h :=
          Some (take 0 (replicate n None) @ replicate (n - 0) (Some x)
                @ drop n (replicate n None))])"
    by (rule std_fill_apart[OF _ _ _ rd ap]) (auto simp: block_at_append)
  then show ?thesis using Inr by simp
qed

lemma SimpleVector_size_value_effect:
  "SimpleVector_size_value room n val h =
     (if n = 0 then Inr (\<lparr>size_' = 0, capacity_' = 0, items_' = \<lparr>raw_ptr_' = None\<rparr>\<rparr>, h)
      else if \<not> granted room n then Inl bad_alloc
      else (case read_ref val h of Inl e \<Rightarrow> Inl e
            | Inr x \<Rightarrow>
                Inr (\<lparr>size_' = n, capacity_' = n, items_' = \<lparr>raw_ptr_' = Some (length h)\<rparr>\<rparr>,
                     h @ [Some (replicate n (Some x))])))"
proof (cases "n = 0")
  case True
  then show ?thesis
    by (simp add: SimpleVector_size_value_def ArrayPtr_new_zero ArrayPtr_subscript_def
        std_fill_empty)
next
  case False
  then have n: "0 < n" by simp
  show ?thesis
  proof (cases "granted room n")
    case True
    show ?thesis
      using n True
      by (simp add: SimpleVector_size_value_def ArrayPtr_new_granted ArrayPtr_subscript_def
          fill_new_block split: sum.splits)
  next
    case False
    then show ?thesis
      using n by (simp add: SimpleVector_size_value_def ArrayPtr_new_refused)
  qed
qed

lemma SimpleVector_size_effect:
  "SimpleVector_size room n h =
     (if n = 0 then Inr (\<lparr>size_' = 0, capacity_' = 0, items_' = \<lparr>raw_ptr_' = None\<rparr>\<rparr>, h)
      else if \<not> granted room n then Inl bad_alloc
      else Inr (\<lparr>size_' = n, capacity_' = n, items_' = \<lparr>raw_ptr_' = Some (length h)\<rparr>\<rparr>,
                h @ [Some (replicate n (Some default))]))"
  using SimpleVector_size_value_effect[of room n "Object default" h]
  by (simp add: SimpleVector_size_def SimpleVector_size_value_def)

lemma init_loop_effect:
  "block_at h a = Some xs \<Longrightarrow> i + length vals \<le> length xs \<Longrightarrow>
   init_loop \<lparr>raw_ptr_' = Some a\<rparr> i vals h =
     Inr (h[a := Some (take i xs @ map Some vals @ drop (i + length vals) xs)])"
proof (induction vals arbitrary: i xs h)
  case Nil
  then show ?case by (simp add: heap_update_same)
next
  case (Cons val rest)
  let ?xs = "xs[i := Some val]"
  let ?h = "h[a := Some ?xs]"
  have lt: "i < length xs" using Cons.prems by simp
  have live: "block_at ?h a = Some ?xs"
    using Cons.prems(1) by (auto simp: block_at_update dest: block_at_live)
  have "init_loop \<lparr>raw_ptr_' = Some a\<rparr> (Suc i) rest ?h =
          Inr (?h[a := Some (take (Suc i) ?xs @ map Some rest @ drop (Suc i + length rest) ?xs)])"
    using Cons.prems by (intro Cons.IH live) simp
  moreover have "take (Suc i) ?xs @ map Some rest @ drop (Suc i + length rest) ?xs =
                 take i xs @ map Some (val # rest) @ drop (i + length (val # rest)) xs"
    using lt by (simp add: take_Suc_conv_app_nth)
  ultimately show ?case
    using Cons.prems(1) lt by (simp add: ArrayPtr_subscript_def store_live)
qed

lemma SimpleVector_init_list_refused:
  "init \<noteq> [] \<Longrightarrow> \<not> granted room (length init) \<Longrightarrow>
   SimpleVector_init_list room init h = Inl bad_alloc"
  by (simp add: SimpleVector_init_list_def ArrayPtr_new_refused)

lemma SimpleVector_init_list_effect:
  assumes "init = [] \<or> granted room (length init)"
  shows "SimpleVector_init_list room init h =
     Inr (\<lparr>size_' = length init, capacity_' = length init,
           items_' = \<lparr>raw_ptr_' = (if init = [] then None else Some (length h))\<rparr>\<rparr>,
          if init = [] then h else h @ [Some (map Some init)])"
proof (cases "init = []")
  case True
  then show ?thesis
    by (simp add: SimpleVector_init_list_def ArrayPtr_new_zero)
next
  case False
  with assms have g: "granted room (length init)" by simp
  let ?n = "length init"
  have "init_loop \<lparr>raw_ptr_' = Some (length h)\<rparr> 0 init (h @ [Some (replicate ?n None)]) =
        Inr ((h @ [Some (replicate ?n None)])[length h :=
          Some (take 0 (replicate ?n None) @ map Some init
                @ drop (0 + length init) (replicate ?n None))])"
    by (intro init_loop_effect) (auto simp: block_at_append)
  then show ?thesis
    using False g
    by (simp add: SimpleVector_init_list_def ArrayPtr_new_granted)
qed

lemma SimpleVector_reserve_refused:
  "capacity_to_reserve proxy \<noteq> 0 \<Longrightarrow> \<not> granted room (capacity_to_reserve proxy) \<Longrightarrow>
   SimpleVector_reserve room proxy h = Inl bad_alloc"
  by (simp add: SimpleVector_reserve_def ArrayPtr_new_refused)

lemma SimpleVector_reserve_effect:
  assumes "capacity_to_reserve proxy = 0 \<or> granted room (capacity_to_reserve proxy)"
  shows "SimpleVector_reserve room proxy h =
     Inr (\<lparr>size_' = 0, capacity_' = capacity_to_reserve proxy,
           items_' = \<lparr>raw_ptr_' = (if capacity_to_reserve proxy = 0 then None
                                    else Some (length h))\<rparr>\<rparr>,
          if capacity_to_reserve proxy = 0 then h
          else h @ [Some (replicate (capacity_to_reserve proxy) None)])"
  using assms by (auto simp: SimpleVector_reserve_def ArrayPtr_new_cases)

lemma copy_into_new:
  assumes wf: "well_formed h v" and xs: "buffer h v = Some xs"
  shows "std_copy (begin_iter v) (end_iter v) (Some (length h), 0)
           (h @ [Some (replicate (size_' v) None)]) =
         Inr (h @ [Some (take (size_' v) xs)])"
proof (cases "size_' v = 0")
  case True
  then show ?thesis
    by (simp add: begin_iter_def end_iter_def ArrayPtr_subscript_def std_copy_empty)
next
  case False
  note d = wfD[OF wf xs]
  from d False have "0 < length xs" by (cases xs) auto
  from buffer_live[OF xs this] obtain a where a: "raw_ptr_' (items_' v) = Some a"
    "block_at h a = Some xs" "a < length h" by blast
  let ?h1 = "h @ [Some (replicate (size_' v) None)]"
  have "std_copy (Some a, 0) (Some a, size_' v) (Some (length h), 0) ?h1 =
         Inr (?h1[length h := Some (take 0 (replicate (size_' v) None)
                @ take (size_' v - 0) (drop 0 xs)
                @ drop (0 + (size_' v - 0)) (replicate (size_' v) None))])"
    using a d by (intro std_copy_effect) (auto simp: block_at_append)
  then show ?thesis
    using a by (simp add: begin_iter_def end_iter_def ArrayPtr_subscript_def)
qed

lemma SimpleVector_copy_refused:
  "size_' other \<noteq> 0 \<Longrightarrow> \<not> granted room (size_' other) \<Longrightarrow>
   SimpleVector_copy room other h = Inl bad_alloc"
  by (simp add: SimpleVector_copy_def ArrayPtr_new_refused)

lemma SimpleVector_copy_effect:
  assumes wf: "well_formed h other" and xs: "buffer h other = Some xs"
    and g: "size_' other = 0 \<or> granted room (size_' other)"
  shows "SimpleVector_copy room other h =
     Inr (\<lparr>size_' = size_' other, capacity_' = size_' other,
           items_' = \<lparr>raw_ptr_' = (if size_' other = 0 then None else Some (length h))\<rparr>\<rparr>,
          if size_' other = 0 then h else h @ [Some (take (size_' other) xs)])"
proof (cases "size_' other = 0")
  case True
  then show ?thesis
    by (simp add: SimpleVector_copy_def ArrayPtr_new_zero begin_iter_def end_iter_def
        ArrayPtr_subscript_def std_copy_empty ArrayPtr_swap_def ArrayPtr_default_def
        ArrayPtr_destroy_def delete_array_def)
next
  case False
  then show ?thesis
    using copy_into_new[OF wf xs] g
    by (simp add: SimpleVector_copy_def ArrayPtr_new_granted
        ArrayPtr_subscript_def ArrayPtr_swap_def ArrayPtr_default_def
        ArrayPtr_destroy_def delete_array_def)
qed

lemma copy_assign_refused:
  "raw_ptr_' (items_' this) \<noteq> raw_ptr_' (items_' rhs) \<Longrightarrow>
   size_' rhs \<noteq> 0 \<Longrightarrow> \<not> granted room (size_' rhs) \<Longrightarrow>
   copy_assign room this rhs h = Inl bad_alloc"
  by (simp add: copy_assign_def Get_def ArrayPtr_new_refused)

lemma copy_assign_effect:
  assumes wt: "well_formed h this" and wf: "well_formed h rhs" and ys: "buffer h rhs = Some ys"
    and ne: "raw_ptr_' (items_' this) \<noteq> raw_ptr_' (items_' rhs)"
    and g: "size_' rhs = 0 \<or> granted room (size_' rhs)"
  shows "copy_assign room this rhs h =
     Inr (this\<lparr>items_' := \<lparr>raw_ptr_' = (if size_' rhs = 0 then None else Some (length h))\<rparr>,
               size_' := size_' rhs, capacity_' := size_' rhs\<rparr>,
          heap_free (raw_ptr_' (items_' this))
            (if size_' rhs = 0 then h else h @ [Some (take (size_' rhs) ys)]))"
proof -
  from wt obtain xs where xs: "buffer h this = Some xs" by (rule wfE)
  have live: "raw_ptr_' (items_' this) = None \<or>
      (\<exists>a zs. raw_ptr_' (items_' this) = Some a \<and> block_at (h @ g) a = Some zs)" for g
  proof (cases "raw_ptr_' (items_' this)")
    case (Some a)
    with xs have "block_at h a = Some xs" by (simp add: buffer_def)
    then show ?thesis
      using Some by (auto simp: block_at_def nth_append split: if_splits)
  qed simp
  have del: "ArrayPtr_destroy \<lparr>raw_ptr_' = raw_ptr_' (items_' this)\<rparr> (h @ g) =
              Inr (heap_free (raw_ptr_' (items_' this)) (h @ g))" for g
    using live[of g] by (simp add: ArrayPtr_destroy_def delete_array_live)
  show ?thesis
  proof (cases "size_' rhs = 0")
    case True
    then show ?thesis
      using ne del[of "[]"]
      by (simp add: copy_assign_def Get_def ArrayPtr_new_zero begin_iter_def end_iter_def
          ArrayPtr_subscript_def std_copy_empty ArrayPtr_swap_def ArrayPtr_update_eq)
  next
    case False
    then show ?thesis
      using ne copy_into_new[OF wf ys] del[of "[Some (take (size_' rhs) ys)]"] g
      by (simp add: copy_assign_def Get_def ArrayPtr_new_granted
          ArrayPtr_subscript_def ArrayPtr_swap_def ArrayPtr_update_eq)
  qed
qed


section \<open>Arrays side by side in one heap\<close>

lemma disjoint_sym: "disjoint v u \<Longrightarrow> disjoint u v"
  by (auto simp: disjoint_def)

lemma ptr_live:
  assumes "well_formed h u" "raw_ptr_' (items_' u) = Some b"
  shows "b < length h"
proof -
  from assms(1) obtain us where "buffer h u = Some us" by (rule wfE)
  with assms(2) show ?thesis by (auto simp: buffer_def dest: block_at_live)
qed

lemma frame_free: "frame p h (heap_free p h)"
  by (auto simp: frame_def block_at_heap_free)

lemma frame_append: "frame p h (h @ g)"
  by (auto simp: frame_def block_at_def nth_append)

lemma good_wf: "good h v \<Longrightarrow> well_formed h v"
  by (simp add: good_def)

lemma good_cap: "good h v \<Longrightarrow> capacity_' v \<le> max_array"
  by (simp add: good_def)

lemma goodI:
  "well_formed h v \<Longrightarrow> buffer h v = Some xs \<Longrightarrow>
   length xs = capacity_' v \<or> size_' v = 0 \<and> capacity_' v = 0 \<Longrightarrow>
   capacity_' v \<le> max_array \<Longrightarrow> good h v"
  by (auto simp: good_def exact_def)

lemma goodD:
  "good h v \<Longrightarrow> buffer h v = Some xs \<Longrightarrow>
   length xs = capacity_' v \<or> size_' v = 0 \<and> capacity_' v = 0"
  by (auto simp: good_def exact_def)

lemma good_buffer_cong: "buffer h' w = buffer h w \<Longrightarrow> good h' w = good h w"
  by (simp add: good_def well_formed_def exact_def)

lemma frame_good:
  assumes "frame p h h'" "good h u"
    "raw_ptr_' (items_' u) = None \<or> raw_ptr_' (items_' u) \<noteq> p"
  shows "good h' u"
proof -
  from assms(2) have "well_formed h u" by (rule good_wf)
  then obtain us where us: "buffer h u = Some us" by (rule wfE)
  have "buffer h' u = Some us" by (rule frame_buffer[OF assms(1) us assms(3)])
  with us assms(2) show ?thesis by (simp add: good_buffer_cong[of h' u h])
qed

lemma world_inv_good: "world_inv w \<Longrightarrow> vectors w x = Some v \<Longrightarrow> good (memory w) v"
  by (simp add: world_inv_def)

lemma world_inv_wf: "world_inv w \<Longrightarrow> vectors w x = Some v \<Longrightarrow> well_formed (memory w) v"
  by (simp add: world_inv_def good_def)

lemma world_inv_disjoint:
  "world_inv w \<Longrightarrow> vectors w x = Some v \<Longrightarrow> vectors w y = Some u \<Longrightarrow> x \<noteq> y \<Longrightarrow>
   disjoint v u"
  by (simp add: world_inv_def)

lemma world_inv_put:
  assumes inv: "world_inv w"
    and vs: "vectors w' = (vectors w)(x \<mapsto> v')"
    and keep: "\<And>y u. y \<noteq> x \<Longrightarrow> vectors w y = Some u \<Longrightarrow> good (memory w') u \<and> disjoint v' u"
    and g': "good (memory w') v'"
  shows "world_inv w'"
  unfolding world_inv_def
proof (intro conjI allI impI)
  fix y u assume "vectors w' y = Some u"
  then show "good (memory w') u"
    using keep[of y u] g' vs by (cases "y = x") auto
next
  fix y z u t assume a: "y \<noteq> z" "vectors w' y = Some u" "vectors w' z = Some t"
  show "disjoint u t"
  proof (cases "y = x")
    case True
    with a vs keep[of z t] show ?thesis by auto
  next
    case False
    show ?thesis
    proof (cases "z = x")
      case True
      with a vs keep[of y u] show ?thesis by (auto intro: disjoint_sym)
    next
      case nz: False
      with False a vs world_inv_disjoint[OF inv, of y u z t] show ?thesis by auto
    qed
  qed
qed

lemma world_inv_update:
  assumes inv: "world_inv w" and x: "vectors w x = Some v"
    and vs: "vectors w' = (vectors w)(x \<mapsto> v')"
    and fr: "frame (raw_ptr_' (items_' v)) (memory w) (memory w')"
    and g': "good (memory w') v'"
    and ptr: "raw_ptr_' (items_' v') = None \<or> raw_ptr_' (items_' v') = raw_ptr_' (items_' v) \<or>
              raw_ptr_' (items_' v') = Some (length (memory w))"
  shows "world_inv w'"
proof (rule world_inv_put[OF inv vs _ g'])
  fix y u assume y: "y \<noteq> x" "vectors w y = Some u"
  note gu = world_inv_good[OF inv y(2)] and wu = world_inv_wf[OF inv y(2)]
  have dj: "disjoint u v" by (rule world_inv_disjoint[OF inv y(2) x y(1)])
  have fresh: "raw_ptr_' (items_' u) \<noteq> Some (length (memory w))"
    using ptr_live[OF wu, of "length (memory w)"] by auto
  have "good (memory w') u"
    by (rule frame_good[OF fr gu]) (use dj in \<open>simp add: disjoint_def\<close>)
  moreover have "disjoint v' u"
    using ptr dj fresh by (auto simp: disjoint_def)
  ultimately show "good (memory w') u \<and> disjoint v' u" ..
qed

lemma world_inv_new:
  assumes inv: "world_inv w" and x: "vectors w x = None"
    and vs: "vectors w' = (vectors w)(x \<mapsto> v')"
    and fr: "frame None (memory w) (memory w')"
    and g': "good (memory w') v'"
    and ptr: "raw_ptr_' (items_' v') = None \<or> raw_ptr_' (items_' v') = Some (length (memory w))"
  shows "world_inv w'"
proof (rule world_inv_put[OF inv vs _ g'])
  fix y u assume y: "y \<noteq> x" "vectors w y = Some u"
  note gu = world_inv_good[OF inv y(2)] and wu = world_inv_wf[OF inv y(2)]
  have fresh: "raw_ptr_' (items_' u) \<noteq> Some (length (memory w))"
    using ptr_live[OF wu, of "length (memory w)"] by auto
  have "good (memory w') u"
    by (rule frame_good[OF fr gu]) auto
  moreover have "disjoint v' u"
    using ptr fresh by (auto simp: disjoint_def)
  ultimately show "good (memory w') u \<and> disjoint v' u" ..
qed

lemma world_inv_put2:
  assumes inv: "world_inv w" and ne: "x \<noteq> y"
    and vs: "vectors w' = (vectors w)(x \<mapsto> v', y \<mapsto> u')" and mem: "memory w' = memory w"
    and g: "good (memory w) v'" "good (memory w) u'"
    and dj: "disjoint v' u'"
    and rest: "\<And>z t. z \<noteq> x \<Longrightarrow> z \<noteq> y \<Longrightarrow> vectors w z = Some t \<Longrightarrow> disjoint v' t \<and> disjoint u' t"
  shows "world_inv w'"
  unfolding world_inv_def
proof (intro conjI allI impI)
  fix z t assume "vectors w' z = Some t"
  then show "good (memory w') t"
    using vs mem g world_inv_good[OF inv, of z t] by (auto split: if_splits)
next
  fix a b t s assume a: "a \<noteq> b" "vectors w' a = Some t" "vectors w' b = Some s"
  consider "a = x" "b = y" | "a = y" "b = x" | "a = x" "b \<noteq> y" | "a = y" "b \<noteq> x"
    | "b = x" "a \<noteq> y" | "b = y" "a \<noteq> x" | "a \<noteq> x" "a \<noteq> y" "b \<noteq> x" "b \<noteq> y"
    using a(1) by blast
  then show "disjoint t s"
  proof cases
    case 1 with a vs ne dj show ?thesis by auto
  next
    case 2 with a vs ne dj show ?thesis by (auto intro: disjoint_sym)
  next
    case 3 with a vs ne rest[of b s] show ?thesis by auto
  next
    case 4 with a vs ne rest[of b s] show ?thesis by auto
  next
    case 5 with a vs ne rest[of a t] show ?thesis by (auto intro: disjoint_sym)
  next
    case 6 with a vs ne rest[of a t] show ?thesis by (auto intro: disjoint_sym)
  next
    case 7 with a vs world_inv_disjoint[OF inv, of a t b s] show ?thesis by auto
  qed
qed

section \<open>Moves, and arrays that stay good\<close>

lemma asserted_pos:
  assumes "ptr_ge pos (begin_iter v) \<and> ptr_less pos (end_iter v)"
  shows "snd pos < size_' v \<and> pos = std_next_n (begin_iter v) (snd pos)"
  using assms
  by (cases pos)
     (auto simp: ptr_ge_def ptr_less_def begin_iter_def end_iter_def ArrayPtr_subscript_def
        std_next_n_def)

lemma Insert_success:
  "Insert room pos val v h = Inr r \<Longrightarrow>
   snd pos < size_' v \<and> pos = std_next_n (begin_iter v) (snd pos)"
  by (rule asserted_pos) (auto simp: Insert_def split: if_splits)

lemma Erase_success:
  "Erase pos v h = Inr r \<Longrightarrow> snd pos < size_' v \<and> pos = std_next_n (begin_iter v) (snd pos)"
  by (rule asserted_pos) (auto simp: Erase_def split: if_splits)

lemma field_update_Some: "s x = Some v \<Longrightarrow> field_update x f s = s(x \<mapsto> f v)"
  by (simp add: field_update_def)

lemma move_assign_self:
  assumes "s x = Some v"
  shows "move_assign x x s = s(x \<mapsto> v\<lparr>size_' := 0, capacity_' := 0\<rparr>)"
  using assms
  by (simp add: move_assign_def ArrayPtr_move_assign_def obj_def field_update_Some Let_def)

lemma move_assign_distinct:
  assumes "x \<noteq> y" "s x = Some this" "s y = Some other"
  shows "move_assign x y s =
     s(x \<mapsto> this\<lparr>items_' := fst (ArrayPtr_move_assign (items_' this) (items_' other)),
                  size_' := size_' other, capacity_' := capacity_' other\<rparr>,
       y \<mapsto> other\<lparr>items_' := snd (ArrayPtr_move_assign (items_' this) (items_' other)),
                   size_' := 0, capacity_' := 0\<rparr>)"
  using assms
  by (auto simp: move_assign_def obj_def field_update_Some Let_def split_beta fun_upd_twist)

lemma good_same_buffer:
  assumes "good h v" "raw_ptr_' (items_' u) = raw_ptr_' (items_' v)"
    "size_' u = size_' v" "capacity_' u = capacity_' v"
  shows "good h u"
proof -
  have b: "buffer h u = buffer h v" using assms(2) by (simp add: buffer_def)
  show ?thesis
    using assms(1) unfolding good_def well_formed_def exact_def b assms(3,4) .
qed

lemma good_shrink:
  assumes "good h v" "raw_ptr_' (items_' u) = raw_ptr_' (items_' v)"
    "size_' u \<le> size_' v" "capacity_' u = capacity_' v"
  shows "good h u"
proof -
  have b: "buffer h u = buffer h v" using assms(2) by (simp add: buffer_def)
  from assms(1) have wf: "well_formed h v" by (rule good_wf)
  from wf obtain xs where xs: "buffer h v = Some xs" and le: "size_' v \<le> capacity_' v"
    and cl: "capacity_' v \<le> length xs" and init: "\<forall>m<size_' v. xs ! m \<noteq> None"
    by (rule wfE)
  have wf': "well_formed h u"
    by (rule wfI[of h u xs]) (use b xs le cl init assms(3,4) in auto)
  have bu: "buffer h u = Some xs" using b xs by simp
  from goodD[OF assms(1) xs] have "length xs = capacity_' u \<or> size_' u = 0 \<and> capacity_' u = 0"
    using assms(3,4) by auto
  moreover have "capacity_' u \<le> max_array" using good_cap[OF assms(1)] assms(4) by simp
  ultimately show ?thesis by (rule goodI[OF wf' bu])
qed

lemma good_emptied:
  assumes "well_formed h v" "raw_ptr_' (items_' u) = raw_ptr_' (items_' v)"
    "size_' u = 0" "capacity_' u = 0"
  shows "good h u"
proof -
  have b: "buffer h u = buffer h v" using assms(2) by (simp add: buffer_def)
  from assms(1) obtain xs where xs: "buffer h v = Some xs"
    by (rule wfE)
  have wf': "well_formed h u"
    by (rule wfI[of h u xs]) (use b xs assms(3,4) in auto)
  with assms(3,4) show ?thesis by (simp add: good_def)
qed

lemma good_null:
  "raw_ptr_' (items_' u) = None \<Longrightarrow> size_' u = 0 \<Longrightarrow> capacity_' u = 0 \<Longrightarrow> good h u"
  by (simp add: good_def well_formed_def buffer_def)

lemma good_fresh_block:
  assumes "raw_ptr_' (items_' u) = Some (length h)" "size_' u \<le> capacity_' u"
    "capacity_' u = length blk" "\<forall>m<size_' u. blk ! m \<noteq> None"
    "capacity_' u \<le> max_array"
  shows "good (h @ [Some blk]) u"
proof -
  have b: "buffer (h @ [Some blk]) u = Some blk"
    using assms(1) by (simp add: buffer_def block_at_append)
  have "well_formed (h @ [Some blk]) u"
    by (rule wfI[OF b]) (use assms in auto)
  then show ?thesis by (rule goodI[OF _ b]) (use assms in simp_all)
qed

lemma SimpleVector_update_all:
  "(v::SimpleVector)\<lparr>items_' := i, size_' := s, capacity_' := c\<rparr> =
     \<lparr>size_' = s, capacity_' = c, items_' = i\<rparr>"
  by (cases v) simp

lemma world_eq: "w\<lparr>vectors := f\<rparr> = \<lparr>vectors = f, memory = memory w\<rparr>"
  by (cases w) simp

lemma map_upd_same: "f x = Some v \<Longrightarrow> f(x \<mapsto> v) = f"
  by (rule ext) simp

lemma step_construct:
  assumes inv: "world_inv w" and x: "vectors w x = None"
    and fr: "frame None (memory w) h"
    and g': "good h v"
    and ptr: "raw_ptr_' (items_' v) = None \<or> raw_ptr_' (items_' v) = Some (length (memory w))"
  shows "world_inv \<lparr>vectors = (vectors w)(x \<mapsto> v), memory = h\<rparr>"
  by (rule world_inv_new[OF inv x, of _ v]) (use fr g' ptr in simp_all)

lemma step_mutate:
  assumes inv: "world_inv w" and x: "vectors w x = Some v"
    and fr: "frame (raw_ptr_' (items_' v)) (memory w) h"
    and g': "good h v'"
    and ptr: "raw_ptr_' (items_' v') = None \<or> raw_ptr_' (items_' v') = raw_ptr_' (items_' v) \<or>
              raw_ptr_' (items_' v') = Some (length (memory w))"
  shows "world_inv \<lparr>vectors = (vectors w)(x \<mapsto> v'), memory = h\<rparr>"
  by (rule world_inv_update[OF inv x, of _ v']) (use fr g' ptr in simp_all)

lemma construct_default_step:
  assumes inv: "world_inv w" and x: "vectors w x = None"
  shows "world_inv (w\<lparr>vectors := (vectors w)(x \<mapsto> SimpleVector_default)\<rparr>)"
proof -
  have g: "good (memory w) SimpleVector_default"
    by (rule good_null) (simp_all add: SimpleVector_default_def ArrayPtr_default_def)
  have p: "raw_ptr_' (items_' SimpleVector_default) = None \<or>
           raw_ptr_' (items_' SimpleVector_default) = Some (length (memory w))"
    by (simp add: SimpleVector_default_def ArrayPtr_default_def)
  show ?thesis
    unfolding world_eq by (rule step_construct[OF inv x frame_refl g p])
qed

lemma construct_block_step:
  assumes inv: "world_inv w" and x: "vectors w x = None"
    and g: "good (if e then memory w else memory w @ [Some blk])
               \<lparr>size_' = s, capacity_' = c,
                items_' = \<lparr>raw_ptr_' = (if e then None else Some (length (memory w)))\<rparr>\<rparr>"
  shows "world_inv \<lparr>vectors = (vectors w)(x \<mapsto>
            \<lparr>size_' = s, capacity_' = c,
             items_' = \<lparr>raw_ptr_' = (if e then None else Some (length (memory w)))\<rparr>\<rparr>),
           memory = (if e then memory w else memory w @ [Some blk])\<rparr>"
proof (rule step_construct[OF inv x _ g])
  show "frame None (memory w) (if e then memory w else memory w @ [Some blk])"
    by (cases e) (simp_all add: frame_refl frame_append)
  show "raw_ptr_' (items_' \<lparr>size_' = s, capacity_' = c,
                items_' = \<lparr>raw_ptr_' = (if e then None else Some (length (memory w)))\<rparr>\<rparr>) = None \<or>
        raw_ptr_' (items_' \<lparr>size_' = s, capacity_' = c,
                items_' = \<lparr>raw_ptr_' = (if e then None else Some (length (memory w)))\<rparr>\<rparr>) =
          Some (length (memory w))"
    by (cases e) simp_all
qed

lemma good_block:
  assumes "e \<longrightarrow> s = 0 \<and> c = 0" "s \<le> c" "c = length blk" "\<forall>m<s. blk ! m \<noteq> None"
    "c \<le> max_array"
  shows "good (if e then h else h @ [Some blk])
     \<lparr>size_' = s, capacity_' = c,
      items_' = \<lparr>raw_ptr_' = (if e then None else Some (length h))\<rparr>\<rparr>"
proof (cases e)
  case True
  with assms(1) show ?thesis by (simp add: good_null)
next
  case False
  have "good (h @ [Some blk])
     \<lparr>size_' = s, capacity_' = c, items_' = \<lparr>raw_ptr_' = Some (length h)\<rparr>\<rparr>"
    by (rule good_fresh_block) (use assms in simp_all)
  with False show ?thesis by simp
qed


section \<open>The growing and shrinking operations keep the invariant\<close>

lemma Resize_step:
  fixes w :: "('a::default) world"
  assumes inv: "world_inv w" and x: "vectors w x = Some v"
    and r: "Resize room n v (memory w) = Inr (v', h)"
  shows "world_inv \<lparr>vectors = (vectors w)(x \<mapsto> v'), memory = h\<rparr>"
proof -
  from inv x have g: "good (memory w) v" by (rule world_inv_good)
  then have wf: "well_formed (memory w) v" by (rule good_wf)
  note cap = good_cap[OF g]
  from wf obtain xs where xs: "buffer (memory w) v = Some xs" by (rule wfE)
  note d = wfD[OF wf xs]
  note ex = goodD[OF g xs]
  have gr: "granted room (max (capacity_' v * 2) n)" if "capacity_' v < n"
  proof (rule ccontr)
    assume "\<not> granted room (max (capacity_' v * 2) n)"
    with d cap that have "Resize room n v (memory w) = Inl bad_alloc"
      by (intro Resize_refused) auto
    with r show False by simp
  qed
  show ?thesis
  proof (rule Resize_props[OF wf xs cap gr], goal_cases)
    case 1 then show ?case .
  next
    case p: (2 v'' h'')
    with r have e: "v'' = v'" "h'' = h" by simp_all
    have wf': "well_formed h v'" by (rule Resize_well_formed[OF wf cap r])
    have b: "buffer h v' = Some
       (if n \<le> size_' v then xs
        else if n \<le> capacity_' v
        then take (size_' v) xs @ replicate (n - size_' v) (Some default) @ drop n xs
        else take (size_' v) xs @ replicate (max (capacity_' v * 2) n - size_' v) (Some default))"
      using p(4) e by simp
    have c': "capacity_' v' \<le> max_array" using p(10) e by simp
    have g': "good h v'"
      by (rule goodI[OF wf' b _ c']) (use p(2,3) e d ex in \<open>auto split: if_splits\<close>)
    show ?case
      by (rule step_mutate[OF inv x _ g'])
         (use p(5,6) e in \<open>auto split: if_splits\<close>)
  qed
qed

lemma Reserve_step:
  fixes w :: "('a::default) world"
  assumes inv: "world_inv w" and x: "vectors w x = Some v"
    and r: "Reserve room n v (memory w) = Inr (v', h)"
  shows "world_inv \<lparr>vectors = (vectors w)(x \<mapsto> v'), memory = h\<rparr>"
proof -
  from inv x have g: "good (memory w) v" by (rule world_inv_good)
  then have wf: "well_formed (memory w) v" by (rule good_wf)
  from wf obtain xs where xs: "buffer (memory w) v = Some xs" by (rule wfE)
  note d = wfD[OF wf xs]
  define n' where "n' = (if n = 0 then 1 else n)"
  show ?thesis
  proof (cases "n' \<le> capacity_' v")
    case True
    then have "Reserve room n v (memory w) = Inr (v, memory w)"
      unfolding n'_def by (rule Reserve_noop)
    with r have e: "v' = v" "h = memory w" by simp_all
    have fr: "frame (raw_ptr_' (items_' v)) (memory w) h" unfolding e by (rule frame_refl)
    have g': "good h v'" unfolding e by (rule g)
    show ?thesis
      by (rule step_mutate[OF inv x fr g']) (simp add: e)
  next
    case False
    then have gt: "capacity_' v < n'" by simp
    have gr: "granted room n'"
    proof (rule ccontr)
      assume "\<not> granted room n'"
      with gt have "Reserve room n v (memory w) = Inl bad_alloc"
        unfolding n'_def by (rule Reserve_refused)
      with r show False by simp
    qed
    let ?blk = "take (size_' v) xs @ replicate (n' - size_' v) (Some default)"
    note R = Reserve_grow[OF wf xs n'_def gt gr]
    with r have e: "v' = v\<lparr>items_' := \<lparr>raw_ptr_' = Some (length (memory w))\<rparr>, capacity_' := n'\<rparr>"
      "h = heap_free (raw_ptr_' (items_' v)) (memory w @ [Some ?blk])" by simp_all
    have blk: "block_at h (length (memory w)) = Some ?blk"
      unfolding e using buffer_ptr_fresh[OF xs] by (simp add: block_at_heap_free block_at_append)
    have b: "buffer h v' = Some ?blk"
      using blk e by (simp add: buffer_def)
    have wf': "well_formed h v'"
      by (rule wfI[OF b]) (use e d gt in \<open>auto simp: nth_append\<close>)
    have c': "capacity_' v' \<le> max_array" using gr e by (simp add: granted_def)
    have g': "good h v'"
      by (rule goodI[OF wf' b _ c']) (use e d gt in auto)
    have fr: "frame (raw_ptr_' (items_' v)) (memory w) h"
      unfolding e by (rule frame_grow)
    show ?thesis
      by (rule step_mutate[OF inv x fr g']) (simp add: e)
  qed
qed

lemma PushBack_step:
  fixes w :: "('a::default) world"
  assumes inv: "world_inv w" and x: "vectors w x = Some v"
    and r: "PushBack room val v (memory w) = Inr (v', h) \<or>
            PushBack_move room val v (memory w) = Inr (v', h)"
  shows "world_inv \<lparr>vectors = (vectors w)(x \<mapsto> v'), memory = h\<rparr>"
proof -
  from inv x have g: "good (memory w) v" by (rule world_inv_good)
  then have wf: "well_formed (memory w) v" by (rule good_wf)
  note cap = good_cap[OF g]
  from wf obtain xs where xs: "buffer (memory w) v = Some xs" by (rule wfE)
  note d = wfD[OF wf xs]
  note ex = goodD[OF g xs]
  show ?thesis
  proof (rule PushBack_result[OF wf xs cap r], goal_cases)
    case p: (1 y ys)
    have c: "size_' v \<le> capacity_' v'" using p(3) d by (auto split: if_splits)
    have l: "length (ys[size_' v := Some y]) = capacity_' v' \<or>
             size_' v' = 0 \<and> capacity_' v' = 0"
      using p(3,5) d ex c by (auto split: if_splits)
    have g': "good h v'"
      by (rule goodI[OF p(1) p(4) l p(8)])
    show ?case
      by (rule step_mutate[OF inv x p(6) g']) (use p(7) in \<open>auto split: if_splits\<close>)
  qed
qed

lemma Insert_step:
  fixes w :: "('a::default) world"
  assumes inv: "world_inv w" and x: "vectors w x = Some v"
    and r: "Insert room pos val v (memory w) = Inr (p, v', h)"
  shows "world_inv \<lparr>vectors = (vectors w)(x \<mapsto> v'), memory = h\<rparr>"
proof -
  from inv x have g: "good (memory w) v" by (rule world_inv_good)
  then have wf: "well_formed (memory w) v" by (rule good_wf)
  note cap = good_cap[OF g]
  from wf obtain xs where xs: "buffer (memory w) v = Some xs" by (rule wfE)
  note d = wfD[OF wf xs]
  note ex = goodD[OF g xs]
  from Insert_success[OF r] have i: "snd pos < size_' v"
    and pos: "pos = std_next_n (begin_iter v) (snd pos)" by simp_all
  from r pos have r': "Insert room (std_next_n (begin_iter v) (snd pos)) val v (memory w) =
      Inr (p, v', h)" by simp
  show ?thesis
  proof (rule Insert_result[OF wf xs cap i r'], goal_cases)
    case q: (1 y ws)
    have l: "length ws = capacity_' v' \<or> size_' v' = 0 \<and> capacity_' v' = 0"
      using q(3,10) ex i by (auto split: if_splits)
    have g': "good h v'"
      by (rule goodI[OF q(1) q(9) l q(11)])
    show ?case
      by (rule step_mutate[OF inv x q(7) g']) (use q(8) in auto)
  qed
qed

lemma Erase_step:
  assumes inv: "world_inv w" and x: "vectors w x = Some v"
    and r: "Erase pos v (memory w) = Inr (p, v', h)"
  shows "world_inv \<lparr>vectors = (vectors w)(x \<mapsto> v'), memory = h\<rparr>"
proof -
  from inv x have g: "good (memory w) v" by (rule world_inv_good)
  then have wf: "well_formed (memory w) v" by (rule good_wf)
  from wf obtain xs where xs: "buffer (memory w) v = Some xs" by (rule wfE)
  note d = wfD[OF wf xs]
  note ex = goodD[OF g xs]
  from Erase_success[OF r] have i: "snd pos < size_' v"
    and pos: "pos = std_next_n (begin_iter v) (snd pos)" by simp_all
  have pos': "pos = (raw_ptr_' (items_' v), snd pos)"
    using pos by (simp add: std_next_n_def begin_iter_def ArrayPtr_subscript_def)
  have wf': "well_formed h v'"
  proof (rule Erase_elems[OF wf i], goal_cases)
    case q: (1 p'' v'' h'')
    with r pos show ?case by simp
  qed
  show ?thesis
  proof (rule Erase_props[OF wf xs pos' i], goal_cases)
    case q: (1 h'')
    with r have e: "v' = v\<lparr>size_' := size_' v - 1\<rparr>" "h'' = h" by simp_all
    let ?zs = "take (snd pos) xs @ take (size_' v - Suc (snd pos)) (drop (Suc (snd pos)) xs)
                 @ drop (size_' v - 1) xs"
    have b: "buffer h v' = Some ?zs"
      using q(2) e by simp
    have len: "length ?zs = length xs" using i d by auto
    have ly: "length xs = capacity_' v'" using e ex i by auto
    have lz: "length ?zs = capacity_' v'" by (simp only: len ly)
    have c': "capacity_' v' \<le> max_array" using good_cap[OF g] e by simp
    have g': "good h v'"
      by (rule goodI[OF wf' b disjI1[OF lz] c'])
    show ?case
      by (rule step_mutate[OF inv x _ g']) (use q(3) e in auto)
  qed
qed

section \<open>Assignment, swap and destruction keep the invariant\<close>

lemma world_eq_memory: "w\<lparr>memory := h\<rparr> = \<lparr>vectors = vectors w, memory = h\<rparr>"
  by (cases w) simp

lemma copy_assign_step:
  assumes inv: "world_inv w" and x: "vectors w x = Some this" and y: "vectors w y = Some rhs"
    and r: "copy_assign room this rhs (memory w) = Inr (v, h)"
  shows "world_inv \<lparr>vectors = (vectors w)(x \<mapsto> v), memory = h\<rparr>"
proof -
  note wt = world_inv_wf[OF inv x] and wr = world_inv_wf[OF inv y]
  note cr = good_cap[OF world_inv_good[OF inv y]]
  from wr obtain ys where ys: "buffer (memory w) rhs = Some ys" by (rule wfE)
  from wt obtain xs where xs: "buffer (memory w) this = Some xs" by (rule wfE)
  note d = wfD[OF wr ys]
  from r have ne: "raw_ptr_' (items_' this) \<noteq> raw_ptr_' (items_' rhs)"
    by (auto simp: copy_assign_def Get_def split: if_splits)
  have gr: "size_' rhs = 0 \<or> granted room (size_' rhs)"
  proof (rule ccontr)
    assume "\<not> (size_' rhs = 0 \<or> granted room (size_' rhs))"
    with ne have "copy_assign room this rhs (memory w) = Inl bad_alloc"
      by (intro copy_assign_refused) auto
    with r show False by simp
  qed
  let ?g = "if size_' rhs = 0 then memory w else memory w @ [Some (take (size_' rhs) ys)]"
  let ?v = "\<lparr>size_' = size_' rhs, capacity_' = size_' rhs,
      items_' = \<lparr>raw_ptr_' = (if size_' rhs = 0 then None else Some (length (memory w)))\<rparr>\<rparr>"
  from copy_assign_effect[OF wt wr ys ne gr] r
  have e: "v = this\<lparr>items_' := \<lparr>raw_ptr_' = (if size_' rhs = 0 then None
                                             else Some (length (memory w)))\<rparr>,
               size_' := size_' rhs, capacity_' := size_' rhs\<rparr>"
    "h = heap_free (raw_ptr_' (items_' this)) ?g" by simp_all
  have "v = ?v" unfolding e(1) by (rule SimpleVector_update_all)
  moreover have "good ?g ?v" by (rule good_block) (use d cr in auto)
  ultimately have wg: "good ?g v" by simp
  have fg: "frame (raw_ptr_' (items_' this)) ?g h"
    unfolding e by (rule frame_free)
  have "raw_ptr_' (items_' v) = None \<or> raw_ptr_' (items_' v) \<noteq> raw_ptr_' (items_' this)"
    using buffer_ptr_fresh[OF xs] by (auto simp: e)
  with fg wg have wv: "good h v" by (rule frame_good)
  have fr: "frame (raw_ptr_' (items_' this)) (memory w) h"
  proof (cases "size_' rhs = 0")
    case True
    then show ?thesis unfolding e by (simp add: frame_free)
  next
    case False
    then show ?thesis unfolding e by (simp add: frame_grow)
  qed
  have p: "raw_ptr_' (items_' v) = None \<or> raw_ptr_' (items_' v) = raw_ptr_' (items_' this) \<or>
        raw_ptr_' (items_' v) = Some (length (memory w))"
    unfolding e(1) by simp
  show ?thesis
    by (rule step_mutate[OF inv x fr wv p])
qed

lemma move_construct_step:
  assumes inv: "world_inv w" and x: "vectors w x = None" and y: "vectors w y = Some other"
    and r: "SimpleVector_move other = (v, other')"
  shows "world_inv (w\<lparr>vectors := (vectors w)(y \<mapsto> other', x \<mapsto> v)\<rparr>)"
proof -
  from x y have ne: "x \<noteq> y" by auto
  note go = world_inv_good[OF inv y]
  from r have v: "size_' v = size_' other" "capacity_' v = capacity_' other"
    "raw_ptr_' (items_' v) = raw_ptr_' (items_' other)"
    and o: "size_' other' = 0" "capacity_' other' = 0" "raw_ptr_' (items_' other') = None"
    by (auto simp: SimpleVector_move_def ArrayPtr_move_assign_def ArrayPtr_default_def
        split: if_splits)
  have gv: "good (memory w) v"
    by (rule good_same_buffer[OF go v(3) v(1) v(2)])
  have go': "good (memory w) other'"
    by (rule good_null[OF o(3) o(1) o(2)])
  have "world_inv (w\<lparr>vectors := (vectors w)(y \<mapsto> other')\<rparr>)"
    by (rule world_inv_update[OF inv y, of _ other'])
       (use go' o in \<open>simp_all add: frame_refl\<close>)
  then show ?thesis
  proof (rule world_inv_put[where x = x and v' = v], goal_cases)
    case 1 show ?case by simp
  next
    case (2 z u)
    show ?case
    proof (cases "z = y")
      case True
      with 2 have "u = other'" by simp
      then show ?thesis using go' v o by (auto simp: disjoint_def)
    next
      case False
      with 2 have u: "vectors w z = Some u" by simp
      from False have "y \<noteq> z" by simp
      with inv y u have "good (memory w) u" "disjoint other u"
        by (auto intro: world_inv_good world_inv_disjoint)
      then show ?thesis using v by (simp add: disjoint_def)
    qed
  next
    case 3 show ?case using gv by simp
  qed
qed

lemma move_assign_step:
  assumes inv: "world_inv w" and x: "vectors w x = Some this" and y: "vectors w y = Some other"
  shows "world_inv (w\<lparr>vectors := move_assign x y (vectors w)\<rparr>)"
proof (cases "x = y")
  case True
  with x y have e: "other = this" by simp
  note wt = world_inv_wf[OF inv x]
  have g: "good (memory w) (this\<lparr>size_' := 0, capacity_' := 0\<rparr>)"
    by (rule good_emptied[OF wt]) simp_all
  show ?thesis
    unfolding True[symmetric] move_assign_self[of "vectors w" x this, OF x]
    by (rule world_inv_update[OF inv x, of _ "this\<lparr>size_' := 0, capacity_' := 0\<rparr>"])
       (use g in \<open>auto simp: frame_refl\<close>)
next
  case False
  note wt = world_inv_wf[OF inv x] and go = world_inv_good[OF inv y]
  let ?i = "ArrayPtr_move_assign (items_' this) (items_' other)"
  let ?t = "this\<lparr>items_' := fst ?i, size_' := size_' other, capacity_' := capacity_' other\<rparr>"
  let ?o = "other\<lparr>items_' := snd ?i, size_' := 0, capacity_' := 0\<rparr>"
  have ptrs: "raw_ptr_' (fst ?i) = raw_ptr_' (items_' other)"
    "raw_ptr_' (snd ?i) = raw_ptr_' (items_' this)"
    by (simp_all add: ArrayPtr_move_assign_def)
  have w1: "good (memory w) ?t"
    by (rule good_same_buffer[OF go]) (use ptrs in simp_all)
  have w2: "good (memory w) ?o"
    by (rule good_emptied[OF wt]) (use ptrs in simp_all)
  have d: "disjoint this other" by (rule world_inv_disjoint[OF inv x y False])
  show ?thesis
  proof (rule world_inv_put2[OF inv False _ _ w1 w2])
    show "vectors (w\<lparr>vectors := move_assign x y (vectors w)\<rparr>) = (vectors w)(x \<mapsto> ?t, y \<mapsto> ?o)"
      by (simp add: move_assign_distinct[OF False x y])
    show "disjoint ?t ?o" using d ptrs by (auto simp: disjoint_def)
    fix z t assume z: "z \<noteq> x" "z \<noteq> y" "vectors w z = Some t"
    have "disjoint this t" "disjoint other t"
      using world_inv_disjoint[OF inv x z(3)] world_inv_disjoint[OF inv y z(3)] z by auto
    then show "disjoint ?t t \<and> disjoint ?o t" using ptrs by (simp add: disjoint_def)
  qed simp
qed

lemma swap_step:
  assumes inv: "world_inv w" and x: "vectors w x = Some this" and y: "vectors w y = Some rhs"
    and r: "SimpleVector_swap this rhs = (this', rhs')"
  shows "world_inv (w\<lparr>vectors := (vectors w)(x \<mapsto> this', y \<mapsto> rhs')\<rparr>)"
proof -
  from r have t: "size_' this' = size_' rhs" "capacity_' this' = capacity_' rhs"
      "raw_ptr_' (items_' this') = raw_ptr_' (items_' rhs)"
    and s: "size_' rhs' = size_' this" "capacity_' rhs' = capacity_' this"
      "raw_ptr_' (items_' rhs') = raw_ptr_' (items_' this)"
    by (auto simp: SimpleVector_swap_def ArrayPtr_swap_def)
  note gt = world_inv_good[OF inv x] and gr = world_inv_good[OF inv y]
  have w1: "good (memory w) this'"
    by (rule good_same_buffer[OF gr t(3) t(1) t(2)])
  have w2: "good (memory w) rhs'"
    by (rule good_same_buffer[OF gt s(3) s(1) s(2)])
  show ?thesis
  proof (cases "x = y")
    case True
    show ?thesis
      unfolding True
      by (rule world_inv_update[OF inv y, of _ rhs'])
         (use w2 s x y True in \<open>auto simp: frame_refl\<close>)
  next
    case False
    have d: "disjoint this rhs" by (rule world_inv_disjoint[OF inv x y False])
    show ?thesis
    proof (rule world_inv_put2[OF inv False _ _ w1 w2])
      show "disjoint this' rhs'" using d t s by (auto simp: disjoint_def)
      fix z u assume z: "z \<noteq> x" "z \<noteq> y" "vectors w z = Some u"
      have "disjoint this u" "disjoint rhs u"
        using world_inv_disjoint[OF inv x z(3)] world_inv_disjoint[OF inv y z(3)] z by auto
      then show "disjoint this' u \<and> disjoint rhs' u" using t s by (simp add: disjoint_def)
    qed simp_all
  qed
qed

lemma assign_element_step:
  assumes inv: "world_inv w" and x: "vectors w x = Some v"
    and p: "operator_subscript i v = Inr p" and st: "store p val (memory w) = Inr h"
  shows "world_inv (w\<lparr>memory := h\<rparr>)"
proof -
  note g = world_inv_good[OF inv x]
  note wf = world_inv_wf[OF inv x]
  from wf obtain xs where xs: "buffer (memory w) v = Some xs" by (rule wfE)
  note d = wfD[OF wf xs]
  note ex = goodD[OF g xs]
  from p have i: "i < size_' v" and pe: "p = (raw_ptr_' (items_' v), i)"
    by (auto simp: operator_subscript_def ArrayPtr_subscript_def split: if_splits)
  from d i have "0 < length xs" by (cases xs) auto
  from buffer_live[OF xs this] obtain a where a: "raw_ptr_' (items_' v) = Some a"
    "block_at (memory w) a = Some xs" "a < length (memory w)" by blast
  have "store (Some a, i) val (memory w) = Inr ((memory w)[a := Some (xs[i := Some val])])"
    using a(2) d i by (intro store_live) auto
  with st pe a(1) have h: "h = (memory w)[a := Some (xs[i := Some val])]" by simp
  have buf: "buffer h v = Some (xs[i := Some val])"
    using a by (simp add: h buffer_def block_at_update)
  have wv: "well_formed h v"
    by (rule wfI[OF buf]) (use d i in \<open>auto simp: nth_list_update\<close>)
  have gv: "good h v"
    by (rule goodI[OF wv buf _ good_cap[OF g]]) (use ex in simp)
  show ?thesis
    by (rule world_inv_update[OF inv x, of _ v])
       (use gv a x in \<open>auto simp: h frame_update map_upd_same\<close>)
qed

lemma destroy_step:
  assumes inv: "world_inv w" and x: "vectors w x = Some v"
    and r: "SimpleVector_destroy v (memory w) = Inr h"
  shows "world_inv \<lparr>vectors = (vectors w)(x := None), memory = h\<rparr>"
proof -
  from r have h: "h = heap_free (raw_ptr_' (items_' v)) (memory w)"
    by (auto simp: SimpleVector_destroy_def ArrayPtr_destroy_def delete_array_def heap_free_def
        split: option.splits if_splits)
  show ?thesis
    unfolding world_inv_def
  proof (intro conjI allI impI)
    fix z t assume "vectors \<lparr>vectors = (vectors w)(x := None), memory = h\<rparr> z = Some t"
    then have z: "z \<noteq> x" "vectors w z = Some t" by (auto split: if_splits)
    have "disjoint t v" using world_inv_disjoint[OF inv z(2) x z(1)] .
    then have "raw_ptr_' (items_' t) = None \<or> raw_ptr_' (items_' t) \<noteq> raw_ptr_' (items_' v)"
      by (simp add: disjoint_def)
    with frame_free world_inv_good[OF inv z(2)]
    have "good (heap_free (raw_ptr_' (items_' v)) (memory w)) t"
      by (rule frame_good)
    then show "good (memory \<lparr>vectors = (vectors w)(x := None), memory = h\<rparr>) t"
      by (simp add: h)
  next
    fix a b t s
    assume "a \<noteq> b" "vectors \<lparr>vectors = (vectors w)(x := None), memory = h\<rparr> a = Some t"
      "vectors \<lparr>vectors = (vectors w)(x := None), memory = h\<rparr> b = Some s"
    then show "disjoint t s"
      using world_inv_disjoint[OF inv, of a t b s] by (auto split: if_splits)
  qed
qed

section \<open>Every step keeps the invariant\<close>

lemma PopBack_step:
  assumes inv: "world_inv w" and x: "vectors w x = Some v"
  shows "world_inv (w\<lparr>vectors := (vectors w)(x \<mapsto> PopBack v)\<rparr>)"
proof -
  note g = world_inv_good[OF inv x]
  have w': "good (memory w) (PopBack v)"
    by (rule good_shrink[OF g]) (simp_all add: PopBack_def)
  have p: "items_' (PopBack v) = items_' v" by (simp add: PopBack_def)
  show ?thesis
    by (rule world_inv_update[OF inv x, of _ "PopBack v"])
       (simp_all add: w' p frame_refl)
qed

lemma At_step:
  assumes inv: "world_inv w" and x: "vectors w x = Some v"
    and r: "At i v (memory w) = (r, v', h)"
  shows "world_inv \<lparr>vectors = (vectors w)(x \<mapsto> v'), memory = h\<rparr>"
proof -
  from r have "v' = v" "h = memory w" by (auto simp: At_def split: if_splits)
  with x inv show ?thesis by (simp add: map_upd_same world_inv_def)
qed


lemma construct_shape_step:
  assumes inv: "world_inv w" and x: "vectors w x = None"
    and v: "v = \<lparr>size_' = s, capacity_' = c,
                  items_' = \<lparr>raw_ptr_' = (if e then None else Some (length (memory w)))\<rparr>\<rparr>"
    and h: "h = (if e then memory w else memory w @ [Some blk])"
    and sh: "e \<longrightarrow> s = 0 \<and> c = 0" "s \<le> c" "c = length blk" "\<forall>m<s. blk ! m \<noteq> None"
      "c \<le> max_array"
  shows "world_inv \<lparr>vectors = (vectors w)(x \<mapsto> v), memory = h\<rparr>"
  unfolding v h by (rule construct_block_step[OF inv x good_block[OF sh]])

lemma size_value_step:
  assumes inv: "world_inv w" and x: "vectors w x = None"
    and r: "SimpleVector_size_value room n val (memory w) = Inr (v, h)"
  shows "world_inv \<lparr>vectors = (vectors w)(x \<mapsto> v), memory = h\<rparr>"
proof (cases "n = 0")
  case True
  with r have e: "v = \<lparr>size_' = 0, capacity_' = 0, items_' = \<lparr>raw_ptr_' = None\<rparr>\<rparr>" "h = memory w"
    by (simp_all add: SimpleVector_size_value_effect)
  show ?thesis
    by (rule construct_shape_step[OF inv x, where e = True and blk = "[]" and s = 0 and c = 0])
       (simp_all add: e)
next
  case False
  with r have g: "granted room n"
    by (auto simp: SimpleVector_size_value_effect split: if_splits)
  with r False obtain y where
    e: "v = \<lparr>size_' = n, capacity_' = n, items_' = \<lparr>raw_ptr_' = Some (length (memory w))\<rparr>\<rparr>"
      "h = memory w @ [Some (replicate n (Some y))]"
    by (auto simp: SimpleVector_size_value_effect split: sum.splits)
  show ?thesis
    by (rule construct_shape_step[OF inv x, where e = False
          and blk = "replicate n (Some y)" and s = n and c = n])
       (use g in \<open>simp_all add: e granted_def\<close>)
qed

lemma size_step:
  assumes inv: "world_inv w" and x: "vectors w x = None"
    and r: "SimpleVector_size room n (memory w) = Inr (v, h)"
  shows "world_inv \<lparr>vectors = (vectors w)(x \<mapsto> v), memory = h\<rparr>"
proof -
  from r have "SimpleVector_size_value room n (Object default) (memory w) = Inr (v, h)"
    by (simp add: SimpleVector_size_def SimpleVector_size_value_def)
  then show ?thesis by (rule size_value_step[OF inv x])
qed

lemma init_list_step:
  assumes inv: "world_inv w" and x: "vectors w x = None"
    and r: "SimpleVector_init_list room init (memory w) = Inr (v, h)"
  shows "world_inv \<lparr>vectors = (vectors w)(x \<mapsto> v), memory = h\<rparr>"
proof -
  have g: "init = [] \<or> granted room (length init)"
  proof (rule ccontr)
    assume "\<not> (init = [] \<or> granted room (length init))"
    then have "SimpleVector_init_list room init (memory w) = Inl bad_alloc"
      by (intro SimpleVector_init_list_refused) auto
    with r show False by simp
  qed
  from r have e:
    "v = \<lparr>size_' = length init, capacity_' = length init,
           items_' = \<lparr>raw_ptr_' = (if init = [] then None else Some (length (memory w)))\<rparr>\<rparr>"
    "h = (if init = [] then memory w else memory w @ [Some (map Some init)])"
    by (simp_all add: SimpleVector_init_list_effect[OF g])
  show ?thesis
    by (rule construct_shape_step[OF inv x e]) (use g in \<open>auto simp: granted_def\<close>)
qed

lemma reserve_step:
  assumes inv: "world_inv w" and x: "vectors w x = None"
    and r: "SimpleVector_reserve room proxy (memory w) = Inr (v, h)"
  shows "world_inv \<lparr>vectors = (vectors w)(x \<mapsto> v), memory = h\<rparr>"
proof -
  have g: "capacity_to_reserve proxy = 0 \<or> granted room (capacity_to_reserve proxy)"
  proof (rule ccontr)
    assume "\<not> (capacity_to_reserve proxy = 0 \<or> granted room (capacity_to_reserve proxy))"
    then have "SimpleVector_reserve room proxy (memory w) = Inl bad_alloc"
      by (intro SimpleVector_reserve_refused) auto
    with r show False by simp
  qed
  from r have e:
    "v = \<lparr>size_' = 0, capacity_' = capacity_to_reserve proxy,
           items_' = \<lparr>raw_ptr_' = (if capacity_to_reserve proxy = 0 then None
                                    else Some (length (memory w)))\<rparr>\<rparr>"
    "h = (if capacity_to_reserve proxy = 0 then memory w
          else memory w @ [Some (replicate (capacity_to_reserve proxy) None)])"
    by (simp_all add: SimpleVector_reserve_effect[OF g])
  show ?thesis
    by (rule construct_shape_step[OF inv x e]) (use g in \<open>auto simp: granted_def\<close>)
qed

lemma copy_construct_step:
  assumes inv: "world_inv w" and x: "vectors w x = None" and y: "vectors w y = Some other"
    and r: "SimpleVector_copy room other (memory w) = Inr (v, h)"
  shows "world_inv \<lparr>vectors = (vectors w)(x \<mapsto> v), memory = h\<rparr>"
proof -
  note wo = world_inv_wf[OF inv y]
  note co = good_cap[OF world_inv_good[OF inv y]]
  from wo obtain xs where xs: "buffer (memory w) other = Some xs" by (rule wfE)
  note d = wfD[OF wo xs]
  have g: "size_' other = 0 \<or> granted room (size_' other)"
  proof (rule ccontr)
    assume "\<not> (size_' other = 0 \<or> granted room (size_' other))"
    then have "SimpleVector_copy room other (memory w) = Inl bad_alloc"
      by (intro SimpleVector_copy_refused) auto
    with r show False by simp
  qed
  from r have e:
    "v = \<lparr>size_' = size_' other, capacity_' = size_' other,
           items_' = \<lparr>raw_ptr_' = (if size_' other = 0 then None
                                    else Some (length (memory w)))\<rparr>\<rparr>"
    "h = (if size_' other = 0 then memory w else memory w @ [Some (take (size_' other) xs)])"
    by (simp_all add: SimpleVector_copy_effect[OF wo xs g])
  show ?thesis
    by (rule construct_shape_step[OF inv x e]) (use d co in auto)
qed

lemma step_preserves:
  fixes w :: "('a::default) world"
  assumes "step w w'" "world_inv w"
  shows "world_inv w'"
  using assms
proof (induction rule: step.induct)
  case (construct_default w x)
  show ?case by (rule construct_default_step[OF construct_default(2,1)])
next
  case (construct_size w x room n v h)
  show ?case by (rule size_step[OF construct_size(3,1,2)])
next
  case (construct_size_value w x room n val v h)
  show ?case by (rule size_value_step[OF construct_size_value(3,1,2)])
next
  case (construct_init_list w x room init v h)
  show ?case by (rule init_list_step[OF construct_init_list(3,1,2)])
next
  case (construct_reserve w x room proxy v h)
  show ?case by (rule reserve_step[OF construct_reserve(3,1,2)])
next
  case (construct_copy w x y other room v h)
  show ?case by (rule copy_construct_step[OF construct_copy(4,1,2,3)])
next
  case (construct_move w x y other v other')
  show ?case by (rule move_construct_step[OF construct_move(4,1,2,3)])
next
  case (assign_copy w x this y rhs room v h)
  show ?case by (rule copy_assign_step[OF assign_copy(4,1,2,3)])
next
  case (assign_move w x this y other)
  show ?case by (rule move_assign_step[OF assign_move(3,1,2)])
next
  case (observe w)
  then show ?case .
next
  case (call_At w x v i r v' h)
  show ?case by (rule At_step[OF call_At(3,1,2)])
next
  case (assign_element w x v i p val h)
  show ?case by (rule assign_element_step[OF assign_element(4,1,2,3)])
next
  case (call_Clear w x v room v' h)
  show ?case by (rule Resize_step[OF call_Clear(3,1) call_Clear(2)[unfolded Clear_def]])
next
  case (call_Resize w x v room n v' h)
  show ?case by (rule Resize_step[OF call_Resize(3,1,2)])
next
  case (call_PopBack w x v)
  show ?case by (rule PopBack_step[OF call_PopBack(2,1)])
next
  case (call_Erase w x v pos p v' h)
  show ?case by (rule Erase_step[OF call_Erase(3,1,2)])
next
  case (call_PushBack w x v room val v' h)
  show ?case by (rule PushBack_step[OF call_PushBack(3,1) disjI1[OF call_PushBack(2)]])
next
  case (call_PushBack_move w x v room val v' h)
  show ?case by (rule PushBack_step[OF call_PushBack_move(3,1) disjI2[OF call_PushBack_move(2)]])
next
  case (call_Insert w x v room pos val p v' h)
  show ?case by (rule Insert_step[OF call_Insert(3,1,2)])
next
  case (call_Insert_move w x v room pos val p v' h)
  show ?case
    by (rule Insert_step[OF call_Insert_move(3,1) call_Insert_move(2)[unfolded Insert_move_eq]])
next
  case (call_swap w x this y rhs this' rhs')
  show ?case by (rule swap_step[OF call_swap(4,1,2,3)])
next
  case (call_Reserve w x v room n v' h)
  show ?case by (rule Reserve_step[OF call_Reserve(3,1,2)])
next
  case (destroy w x v h)
  show ?case by (rule destroy_step[OF destroy(3,1,2)])
qed

lemma reachable_world_inv:
  fixes w :: "('a::default) world"
  assumes "reachable w"
  shows "world_inv w"
  using assms
proof (induction rule: reachable.induct)
  case reach_start
  show ?case by (simp add: world_inv_def)
next
  case (reach_step w w')
  show ?case by (rule step_preserves[OF reach_step(2,3)])
qed


section \<open>What PushBack and Insert do with the value they were given\<close>

lemma refers_into_Element:
  "refers_into (Element p) v \<longleftrightarrow> fst p = raw_ptr_' (items_' v)"
  by (simp add: refers_into_def)

lemma refers_into_Object [simp]: "\<not> refers_into (Object x) v"
  by (simp add: refers_into_def)

lemma grown_slot: "n \<le> length xs \<Longrightarrow> n < c \<Longrightarrow> (take n xs @ replicate (c - n) y) ! n = y"
  by (simp add: nth_append)

lemma PushBack_returns:
  fixes h :: "('a::default) heap"
  assumes wf: "well_formed h v" and xs: "buffer h v = Some xs"
    and cap: "capacity_' v \<le> max_array"
    and gr: "size_' v = capacity_' v \<Longrightarrow> granted room (doubled (capacity_' v))"
    and rd: "read_ref val h = Inr x"
    and ap: "size_' v = capacity_' v \<Longrightarrow> \<not> refers_into val v"
  obtains v' h' where
    "PushBack room val v h = Inr (v', h')"
    "size_' v = capacity_' v \<or> xs ! size_' v \<noteq> None \<Longrightarrow>
       PushBack_move room val v h = Inr (v', h')"
    "well_formed h' v'"
    "size_' v' = Suc (size_' v)"
    "capacity_' v' = (if size_' v = capacity_' v
                       then (if capacity_' v = 0 then 1 else capacity_' v * 2) else capacity_' v)"
    "elems h' v' ! size_' v = x"
    "\<forall>i<size_' v. elems h' v' ! i = elems h v ! i"
    "capacity_' v' \<le> max_array"
proof -
  note d = wfD[OF wf xs]
  show ?thesis
  proof (rule PushBack_props[OF wf xs cap gr, of val], goal_cases)
    case 1 then show ?case .
  next
    case q: (2 v' h1 a ys)
    let ?ys = "ys[size_' v := Some x]"
    let ?h = "h1[a := Some ?ys]"
    have r1: "read_ref val h1 = Inr x"
    proof (cases "size_' v = capacity_' v")
      case True
      show ?thesis by (rule read_ref_frame[OF rd ap[OF True] q(8)])
    next
      case False
      with q(10) rd show ?thesis by simp
    qed
    have slot: "ys ! size_' v \<noteq> None" if "size_' v = capacity_' v \<or> xs ! size_' v \<noteq> None"
    proof (cases "size_' v = capacity_' v")
      case True
      have c: "size_' v < capacity_' v'" using q(4) True by (auto split: if_splits)
      have n: "size_' v \<le> length xs" using d by simp
      have "ys = take (size_' v) xs @ replicate (capacity_' v' - size_' v) (Some default)"
        using q(5) True by simp
      then have "ys ! size_' v = Some default" by (simp only: grown_slot[OF n c])
      then show ?thesis by simp
    next
      case False
      with that q(5) show ?thesis by simp
    qed
    have b: "buffer ?h v' = Some ?ys" by (rule q(13))
    have at: "elems ?h v' ! size_' v = x"
      using q(3,12) by (simp add: elems_buffer[OF b])
    have below: "\<forall>i<size_' v. elems ?h v' ! i = elems h v ! i"
      by (rule elems_take[OF xs b])
         (use d q(3,5,12) in \<open>auto simp: nth_list_update nth_append\<close>)
    show ?case
    proof (rule that[of v' ?h])
      show "PushBack room val v h = Inr (v', ?h)" using q(1) r1 by simp
      show "PushBack_move room val v h = Inr (v', ?h)"
        if "size_' v = capacity_' v \<or> xs ! size_' v \<noteq> None"
        using q(2) r1 slot[OF that] by (auto split: option.splits)
      show "well_formed ?h v'" by (rule q(15))
    qed (use q at below in simp_all)
  qed
qed


lemma Insert_returns:
  fixes h :: "('a::default) heap"
  assumes wf: "well_formed h v" and xs: "buffer h v = Some xs"
    and cap: "capacity_' v \<le> max_array"
    and gr: "size_' v = capacity_' v \<Longrightarrow> granted room (doubled (capacity_' v))"
    and i: "i < size_' v"
    and rd: "read_ref val h = Inr x"
    and ap: "\<not> refers_into val v"
  obtains p v' h' where
    "Insert room (std_next_n (begin_iter v) i) val v h = Inr (p, v', h')"
    "well_formed h' v'"
    "size_' v' = Suc (size_' v)"
    "capacity_' v' = (if size_' v = capacity_' v
                       then (if capacity_' v = 0 then 1 else capacity_' v * 2) else capacity_' v)"
    "elems h' v' = take i (elems h v) @ [x] @ drop i (elems h v)"
    "p = std_next_n (begin_iter v') i"
    "load p h' = Inr x"
proof -
  show ?thesis
  proof (rule Insert_elems[OF wf xs cap gr i, of val], goal_cases)
    case 1 then show ?case .
  next
    case q: (2 p v' h2 a zs)
    have r2: "read_ref val h2 = Inr x" by (rule read_ref_frame[OF rd ap q(10)])
    show ?case
      by (rule that[of p v' "h2[a := Some (zs[i := Some x])]"]) (use q r2 in simp_all)
  qed
qed

text \<open>
  \<open>Insert(begin + i, v[k])\<close> on an array that is not full: the value is read after the
  elements from \<open>i\<close> on have been shifted, so for \<open>k > i\<close> it is element \<open>k - 1\<close>.
\<close>
lemma Insert_aliased:
  fixes h :: "('a::default) heap"
  assumes wf: "well_formed h v" and cap: "capacity_' v \<le> max_array"
    and nf: "size_' v \<noteq> capacity_' v"
    and i: "i < size_' v" and k: "k < size_' v"
  obtains p v' h' where
    "Insert room (std_next_n (begin_iter v) i) (Element (std_next_n (begin_iter v) k)) v h
       = Inr (p, v', h')"
    "well_formed h' v'"
    "size_' v' = Suc (size_' v)"
    "capacity_' v' = capacity_' v"
    "elems h' v' = take i (elems h v) @ [elems h v ! (if k \<le> i then k else k - 1)]
                     @ drop i (elems h v)"
    "p = std_next_n (begin_iter v') i"
proof -
  from wf obtain xs where xs: "buffer h v = Some xs" by (rule wfE)
  note d = wfD[OF wf xs]
  have gr: "size_' v = capacity_' v \<Longrightarrow> granted room (doubled (capacity_' v))"
    using nf by simp
  let ?val = "Element (std_next_n (begin_iter v) k)"
  let ?j = "if k \<le> i then k else k - 1"
  show ?thesis
  proof (rule Insert_elems[OF wf xs cap gr i, of ?val], goal_cases)
    case 1 then show ?case .
  next
    case q: (2 p v' h2 a zs)
    from q(12)[OF nf] have a: "raw_ptr_' (items_' v) = Some a" by simp
    have kl: "k < length xs" using k d by simp
    have lz: "length zs = length xs" using q(14) nf by simp
    have j: "?j < size_' v" using k i by auto
    have "zs ! k = xs ! ?j" using q(17)[OF nf kl] k by auto
    also have "\<dots> = Some (elems h v ! ?j)" by (rule elems_nth[OF wf xs j])
    finally have zk: "zs ! k = Some (elems h v ! ?j)" .
    have "load (Some a, k) h2 = Inr (elems h v ! ?j)"
      by (rule load_live[OF q(16)]) (use kl lz zk in simp_all)
    then have r2: "read_ref ?val h2 = Inr (elems h v ! ?j)"
      using a by (simp add: std_next_n_def begin_iter_def ArrayPtr_subscript_def)
    show ?case
      by (rule that[of p v' "h2[a := Some (zs[i := Some (elems h v ! ?j)])]"])
         (use q r2 nf in simp_all)
  qed
qed

lemma Insert_dangling:
  fixes h :: "('a::default) heap"
  assumes wf: "well_formed h v" and cap: "capacity_' v \<le> max_array"
    and full: "size_' v = capacity_' v"
    and gr: "granted room (doubled (capacity_' v))"
    and i: "i < size_' v"
    and al: "refers_into val v"
  shows "Insert room (std_next_n (begin_iter v) i) val v h = Inl undefined_behaviour"
proof -
  from wf obtain xs where xs: "buffer h v = Some xs" by (rule wfE)
  show ?thesis
  proof (rule Insert_elems[OF wf xs cap gr i, of val], goal_cases)
    case q: (1 p v' h2 a zs)
    have "read_ref val h2 = Inl undefined_behaviour"
      unfolding q(11)[OF full] by (rule read_ref_freed[OF al])
    with q(1) show ?case by simp
  qed
qed



section \<open>Three programs\<close>

text \<open>\<open>SimpleVector<int> a{1, 2}; SimpleVector<int> b{3}; a = std::move(b);\<close>\<close>
lemma moved_from_reachable:
  "reachable
     \<lparr>vectors = [0 \<mapsto> \<lparr>size_' = 1, capacity_' = 1, items_' = \<lparr>raw_ptr_' = Some 1\<rparr>\<rparr>,
                 1 \<mapsto> \<lparr>size_' = 0, capacity_' = 0, items_' = \<lparr>raw_ptr_' = Some 0\<rparr>\<rparr>],
      memory = [Some [Some 1, Some 2], Some [Some (3::int)]]\<rparr>"
proof -
  let ?a = "\<lparr>size_' = 2, capacity_' = 2, items_' = \<lparr>raw_ptr_' = Some 0\<rparr>\<rparr>"
  let ?b = "\<lparr>size_' = 1, capacity_' = 1, items_' = \<lparr>raw_ptr_' = Some 1\<rparr>\<rparr>"
  let ?h1 = "[Some [Some (1::int), Some 2]]"
  let ?h2 = "[Some [Some (1::int), Some 2], Some [Some 3]]"
  let ?w0 = "\<lparr>vectors = Map.empty, memory = ([] :: int heap)\<rparr>"
  let ?w1 = "\<lparr>vectors = [0 \<mapsto> ?a], memory = ?h1\<rparr>"
  let ?w2 = "\<lparr>vectors = [0 \<mapsto> ?a, 1 \<mapsto> ?b], memory = ?h2\<rparr>"
  have g: "granted 2 (length [1::int, 2])" "granted 1 (length [3::int])"
    by (simp_all add: granted_def max_array_def)
  have i1: "SimpleVector_init_list 2 [1, 2] ([] :: int heap) = Inr (?a, ?h1)"
    unfolding SimpleVector_init_list_effect[OF disjI2[OF g(1)]] by simp
  have i2: "SimpleVector_init_list 1 [3] ?h1 = Inr (?b, ?h2)"
    unfolding SimpleVector_init_list_effect[OF disjI2[OF g(2)]] by simp
  have "step ?w0 \<lparr>vectors = (vectors ?w0)(0 \<mapsto> ?a), memory = ?h1\<rparr>"
    by (rule construct_init_list[of _ _ 2 "[1, 2]"]) (simp_all add: i1)
  then have s1: "step ?w0 ?w1" by simp
  have "step ?w1 \<lparr>vectors = (vectors ?w1)(1 \<mapsto> ?b), memory = ?h2\<rparr>"
    by (rule construct_init_list[of _ _ 1 "[3]"]) (simp_all add: i2 del: One_nat_def)
  then have s2: "step ?w1 ?w2" by simp
  have "step ?w2 (?w2\<lparr>vectors := move_assign 0 1 (vectors ?w2)\<rparr>)"
    by (rule assign_move[of _ _ ?a _ ?b]) simp_all
  moreover have m: "move_assign 0 1 [0 \<mapsto> ?a, 1 \<mapsto> ?b] =
      [0 \<mapsto> ?a, 1 \<mapsto> ?b]
        (0 \<mapsto> ?a\<lparr>items_' := fst (ArrayPtr_move_assign (items_' ?a) (items_' ?b)),
                     size_' := size_' ?b, capacity_' := capacity_' ?b\<rparr>,
         1 \<mapsto> ?b\<lparr>items_' := snd (ArrayPtr_move_assign (items_' ?a) (items_' ?b)),
                     size_' := 0, capacity_' := 0\<rparr>)"
    by (rule move_assign_distinct) simp_all
  have "move_assign 0 1 [0 \<mapsto> ?a, 1 \<mapsto> ?b] =
      [0 \<mapsto> \<lparr>size_' = 1, capacity_' = 1, items_' = \<lparr>raw_ptr_' = Some 1\<rparr>\<rparr>,
       1 \<mapsto> \<lparr>size_' = 0, capacity_' = 0, items_' = \<lparr>raw_ptr_' = Some 0\<rparr>\<rparr>]"
    unfolding m by (rule ext) (simp add: ArrayPtr_move_assign_def)
  ultimately have s3: "step ?w2
     \<lparr>vectors = [0 \<mapsto> \<lparr>size_' = 1, capacity_' = 1, items_' = \<lparr>raw_ptr_' = Some 1\<rparr>\<rparr>,
                 1 \<mapsto> \<lparr>size_' = 0, capacity_' = 0, items_' = \<lparr>raw_ptr_' = Some 0\<rparr>\<rparr>],
      memory = ?h2\<rparr>" by simp
  show ?thesis
    by (rule reach_step[OF reach_step[OF reach_step[OF reach_start s1] s2] s3])
qed

text \<open>\<open>SimpleVector<int> a; SimpleVector<int> b;\<close>\<close>
lemma two_empty_reachable:
  "reachable \<lparr>vectors = [0 \<mapsto> SimpleVector_default, 1 \<mapsto> SimpleVector_default],
              memory = ([] :: int heap)\<rparr>"
proof -
  let ?w0 = "\<lparr>vectors = Map.empty, memory = ([] :: int heap)\<rparr>"
  let ?w1 = "\<lparr>vectors = [0 \<mapsto> SimpleVector_default], memory = ([] :: int heap)\<rparr>"
  have "step ?w0 (?w0\<lparr>vectors := (vectors ?w0)(0 \<mapsto> SimpleVector_default)\<rparr>)"
    by (rule construct_default) simp
  then have s1: "step ?w0 ?w1" by simp
  have "step ?w1 (?w1\<lparr>vectors := (vectors ?w1)(1 \<mapsto> SimpleVector_default)\<rparr>)"
    by (rule construct_default) simp
  then have s2: "step ?w1 \<lparr>vectors = [0 \<mapsto> SimpleVector_default, 1 \<mapsto> SimpleVector_default],
              memory = ([] :: int heap)\<rparr>" by simp
  show ?thesis by (rule reach_step[OF reach_step[OF reach_start s1] s2])
qed

text \<open>\<open>SimpleVector<int> v(3); v.Resize(1);\<close>\<close>
lemma shrunk_reachable:
  "reachable \<lparr>vectors = [0 \<mapsto> \<lparr>size_' = 1, capacity_' = 3, items_' = \<lparr>raw_ptr_' = Some 0\<rparr>\<rparr>],
              memory = [Some [Some (0::int), Some 0, Some 0]]\<rparr>"
proof -
  let ?h = "[Some [Some (0::int), Some 0, Some 0]]"
  let ?v3 = "\<lparr>size_' = 3, capacity_' = 3, items_' = \<lparr>raw_ptr_' = Some 0\<rparr>\<rparr>"
  let ?v1 = "\<lparr>size_' = 1, capacity_' = 3, items_' = \<lparr>raw_ptr_' = Some 0\<rparr>\<rparr>"
  let ?w0 = "\<lparr>vectors = Map.empty, memory = ([] :: int heap)\<rparr>"
  let ?w1 = "\<lparr>vectors = [0 \<mapsto> ?v3], memory = ?h\<rparr>"
  have c: "SimpleVector_size 3 3 ([] :: int heap) = Inr (?v3, ?h)"
    by (simp add: SimpleVector_size_effect granted_def max_array_def default_int_def
        numeral_3_eq_3)
  have "step ?w0 \<lparr>vectors = (vectors ?w0)(0 \<mapsto> ?v3), memory = ?h\<rparr>"
    by (rule construct_size[of _ _ 3 3]) (simp_all add: c)
  then have s1: "step ?w0 ?w1" by simp
  have "step ?w1 \<lparr>vectors = (vectors ?w1)(0 \<mapsto> ?v1), memory = ?h\<rparr>"
    by (rule call_Resize[of _ _ ?v3 0 1]) (simp_all add: Resize_def)
  then have s2: "step ?w1 \<lparr>vectors = [0 \<mapsto> ?v1], memory = ?h\<rparr>" by simp
  show ?thesis by (rule reach_step[OF reach_step[OF reach_start s1] s2])
qed



section \<open>The claims\<close>


text \<open>
  C1 (as amended). \<open>Resize(n)\<close> on a well-formed array whose capacity is that of an
  array that can exist. For \<open>n\<close> up to the capacity, and for \<open>n\<close> above it when the
  free store gives the \<open>max(2 * capacity, n)\<close> elements \<open>Reserve\<close> asks for, it
  returns with size \<open>n\<close>, and: for \<open>n\<close> equal to the size nothing changes at all; for
  \<open>n\<close> below the size the capacity and the elements below \<open>n\<close> are unchanged; for
  \<open>size \<le> n \<le> capacity\<close> the capacity and the old elements are unchanged and the
  slots from the old size up to \<open>n\<close> hold \<open>Type()\<close>; for \<open>n\<close> above the capacity
  the capacity becomes \<open>max(2 * capacity, n)\<close>, the old elements are kept and the slots
  from the old size up to \<open>n\<close> hold \<open>Type()\<close>. For \<open>n\<close> above the capacity when
  the free store does not give that many elements, as it cannot when there are more than
  an array can have, it ends with \<open>std::bad_alloc\<close>.
\<close>

theorem Resize_contract:
  fixes h :: "('a::default) heap"
  assumes wf: "well_formed h v" and cap: "capacity_' v \<le> max_array"
  shows
   "(n \<le> capacity_' v \<or> granted room (max (2 * capacity_' v) n) \<longrightarrow>
     (\<exists>v' h'. Resize room n v h = Inr (v', h') \<and> well_formed h' v' \<and> size_' v' = n \<and>
       (n = size_' v \<longrightarrow> v' = v \<and> h' = h) \<and>
       (n < size_' v \<longrightarrow>
          capacity_' v' = capacity_' v \<and> (\<forall>i<n. elems h' v' ! i = elems h v ! i)) \<and>
       (size_' v \<le> n \<and> n \<le> capacity_' v \<longrightarrow>
          capacity_' v' = capacity_' v \<and>
          (\<forall>i<size_' v. elems h' v' ! i = elems h v ! i) \<and>
          (\<forall>i. size_' v \<le> i \<and> i < n \<longrightarrow> elems h' v' ! i = default)) \<and>
       (capacity_' v < n \<longrightarrow>
          capacity_' v' = max (2 * capacity_' v) n \<and>
          (\<forall>i<size_' v. elems h' v' ! i = elems h v ! i) \<and>
          (\<forall>i. size_' v \<le> i \<and> i < n \<longrightarrow> elems h' v' ! i = default)))) \<and>
    (capacity_' v < n \<and> \<not> granted room (max (2 * capacity_' v) n) \<longrightarrow>
       Resize room n v h = Inl bad_alloc)"
proof (intro conjI impI)
  from wf obtain xs where xs: "buffer h v = Some xs" by (rule wfE)
  note d = wfD[OF wf xs]
  assume "capacity_' v < n \<and> \<not> granted room (max (2 * capacity_' v) n)"
  then show "Resize room n v h = Inl bad_alloc"
    using d cap by (intro Resize_refused) (auto simp: mult.commute)
next
  assume a: "n \<le> capacity_' v \<or> granted room (max (2 * capacity_' v) n)"
  from wf obtain xs where xs: "buffer h v = Some xs" by (rule wfE)
  note d = wfD[OF wf xs]
  have gr: "granted room (max (capacity_' v * 2) n)" if "capacity_' v < n"
    using a that by (simp add: mult.commute)
  show "\<exists>v' h'. Resize room n v h = Inr (v', h') \<and> well_formed h' v' \<and> size_' v' = n \<and>
       (n = size_' v \<longrightarrow> v' = v \<and> h' = h) \<and>
       (n < size_' v \<longrightarrow>
          capacity_' v' = capacity_' v \<and> (\<forall>i<n. elems h' v' ! i = elems h v ! i)) \<and>
       (size_' v \<le> n \<and> n \<le> capacity_' v \<longrightarrow>
          capacity_' v' = capacity_' v \<and>
          (\<forall>i<size_' v. elems h' v' ! i = elems h v ! i) \<and>
          (\<forall>i. size_' v \<le> i \<and> i < n \<longrightarrow> elems h' v' ! i = default)) \<and>
       (capacity_' v < n \<longrightarrow>
          capacity_' v' = max (2 * capacity_' v) n \<and>
          (\<forall>i<size_' v. elems h' v' ! i = elems h v ! i) \<and>
          (\<forall>i. size_' v \<le> i \<and> i < n \<longrightarrow> elems h' v' ! i = default))"
  proof (rule Resize_props[OF wf xs cap gr], goal_cases)
    case 1 then show ?case .
  next
    case p: (2 v' h')
    note w = Resize_well_formed[OF wf cap p(1)]
    let ?ys = "if n \<le> size_' v then xs
        else if n \<le> capacity_' v
        then take (size_' v) xs @ replicate (n - size_' v) (Some default) @ drop n xs
        else take (size_' v) xs @ replicate (max (capacity_' v * 2) n - size_' v) (Some default)"
    note dw = wfD[OF w p(4)]
    have keep: "\<forall>i<min n (size_' v). elems h' v' ! i = elems h v ! i"
      using d dw p(2)
      by (intro elems_take[OF xs p(4)]) (auto simp: nth_append)
    have fresh: "elems h' v' ! i = default" if "size_' v \<le> i" "i < n" for i
    proof -
      have l: "length (take (size_' v) xs) = size_' v" using d by simp
      have lt: "i - size_' v < n - size_' v" using that by arith
      have "?ys ! i = Some default"
      proof (cases "n \<le> capacity_' v")
        case True
        then show ?thesis using that lt d by (simp add: nth_append min_absorb2)
      next
        case False
        then have "i - size_' v < max (capacity_' v * 2) n - size_' v" using that by arith
        then show ?thesis using that False d by (simp add: nth_append min_absorb2)
      qed
      moreover have "i < length ?ys" using dw p(2) that by simp
      ultimately show ?thesis using that p(2) by (simp add: elems_buffer[OF p(4)])
    qed
    show ?case
      using p(1,2,3,8) w keep fresh d
      by (intro exI[of _ v'] exI[of _ h']) (auto simp: max.commute mult.commute)
  qed
qed

theorem Resize_contract_witness:
  "well_formed [Some [Some (17::int), Some 4, None, None]]
     \<lparr>size_' = 2, capacity_' = 4, items_' = \<lparr>raw_ptr_' = Some 0\<rparr>\<rparr> \<and>
   (\<exists>v' h'. Resize 100 3 \<lparr>size_' = 2, capacity_' = 4, items_' = \<lparr>raw_ptr_' = Some 0\<rparr>\<rparr>
              [Some [Some (17::int), Some 4, None, None]] = Inr (v', h') \<and>
      size_' v' = 3 \<and> capacity_' v' = 4 \<and> elems h' v' ! 0 = 17 \<and> elems h' v' ! 2 = 0) \<and>
   (\<exists>v' h'. Resize 100 5 \<lparr>size_' = 2, capacity_' = 4, items_' = \<lparr>raw_ptr_' = Some 0\<rparr>\<rparr>
              [Some [Some (17::int), Some 4, None, None]] = Inr (v', h') \<and>
      size_' v' = 5 \<and> capacity_' v' = 8 \<and> elems h' v' ! 1 = 4 \<and> elems h' v' ! 4 = 0) \<and>
   (\<exists>v' h'. Resize 100 1 \<lparr>size_' = 2, capacity_' = 4, items_' = \<lparr>raw_ptr_' = Some 0\<rparr>\<rparr>
              [Some [Some (17::int), Some 4, None, None]] = Inr (v', h') \<and>
      size_' v' = 1 \<and> capacity_' v' = 4 \<and> elems h' v' ! 0 = 17) \<and>
   Resize 7 5 \<lparr>size_' = 2, capacity_' = 4, items_' = \<lparr>raw_ptr_' = Some 0\<rparr>\<rparr>
              [Some [Some (17::int), Some 4, None, None]] = Inl bad_alloc"
proof -
  let ?h = "[Some [Some (17::int), Some 4, None, None]]"
  let ?v = "\<lparr>size_' = 2, capacity_' = 4, items_' = \<lparr>raw_ptr_' = Some 0\<rparr>\<rparr>"
  have w: "well_formed ?h ?v" by (simp add: well_formed_def buffer_def block_at_def)
  have c: "capacity_' ?v \<le> max_array" by (simp add: max_array_def)
  have g: "granted 100 8" "\<not> granted 7 8" by (simp_all add: granted_def max_array_def)
  have e: "elems ?h ?v = [17, 4]" by (simp add: elems_def buffer_def block_at_def)
  have 1: "\<exists>v' h'. Resize 100 3 ?v ?h = Inr (v', h') \<and>
      size_' v' = 3 \<and> capacity_' v' = 4 \<and> elems h' v' ! 0 = 17 \<and> elems h' v' ! 2 = 0"
  proof -
    from Resize_contract[OF w c, of 3 100] obtain v' h' where r:
      "Resize 100 3 ?v ?h = Inr (v', h')" "size_' v' = 3" "capacity_' v' = 4"
      "\<forall>i<2. elems h' v' ! i = elems ?h ?v ! i"
      "\<forall>i. 2 \<le> i \<and> i < 3 \<longrightarrow> elems h' v' ! i = default"
      by auto
    from r(4) e have "elems h' v' ! 0 = 17" by simp
    moreover from r(5) have "elems h' v' ! 2 = 0" by (simp add: default_int_def)
    ultimately show ?thesis using r(1,2,3) by blast
  qed
  have 2: "\<exists>v' h'. Resize 100 5 ?v ?h = Inr (v', h') \<and>
      size_' v' = 5 \<and> capacity_' v' = 8 \<and> elems h' v' ! 1 = 4 \<and> elems h' v' ! 4 = 0"
  proof -
    from Resize_contract[OF w c, of 5 100] g obtain v' h' where r:
      "Resize 100 5 ?v ?h = Inr (v', h')" "size_' v' = 5" "capacity_' v' = 8"
      "\<forall>i<2. elems h' v' ! i = elems ?h ?v ! i"
      "\<forall>i. 2 \<le> i \<and> i < 5 \<longrightarrow> elems h' v' ! i = default"
      by auto
    from r(4) e have "elems h' v' ! 1 = 4" by simp
    moreover from r(5) have "elems h' v' ! 4 = 0" by (simp add: default_int_def)
    ultimately show ?thesis using r(1,2,3) by blast
  qed
  have 3: "\<exists>v' h'. Resize 100 1 ?v ?h = Inr (v', h') \<and>
      size_' v' = 1 \<and> capacity_' v' = 4 \<and> elems h' v' ! 0 = 17"
  proof -
    from Resize_contract[OF w c, of 1 100] obtain v' h' where r:
      "Resize 100 1 ?v ?h = Inr (v', h')" "size_' v' = 1" "capacity_' v' = 4"
      "\<forall>i<1. elems h' v' ! i = elems ?h ?v ! i"
      by auto
    from r(4) e have "elems h' v' ! 0 = 17" by simp
    then show ?thesis using r(1,2,3) by blast
  qed
  have 4: "Resize 7 5 ?v ?h = Inl bad_alloc"
    using Resize_contract[OF w c, of 5 7] g by simp
  from w 1 2 3 4 show ?thesis by blast
qed

text \<open>
  C1 as stated fails: \<open>Resize(SIZE_MAX)\<close> on an array of size 2 and capacity 4 does not
  grow the array to \<open>SIZE_MAX\<close> elements, whatever the free store is ready to give; it
  ends with \<open>std::bad_alloc\<close>.
\<close>
theorem Resize_beyond_any_array:
  "Resize (2 ^ 64 - 1) (2 ^ 64 - 1)
     \<lparr>size_' = 2, capacity_' = 4, items_' = \<lparr>raw_ptr_' = Some 0\<rparr>\<rparr>
     [Some [Some (17::int), Some 4, None, None]] = Inl bad_alloc"
  by (rule Resize_refused) (simp_all add: granted_def max_array_def)

text \<open>
  C2 (as amended). \<open>Insert(pos, value)\<close> on a well-formed array, for \<open>pos = begin + i\<close> with
  \<open>i < size\<close> and a reference \<open>value\<close> that reads \<open>x\<close> at the call; both overloads.

  \<^item> When \<open>value\<close> does not refer into the array's own buffer (and, for a full array, the
    free store gives the grown block), the call returns; the capacity afterwards is the
    one \<open>PushBack\<close> leaves (grown only when size equalled capacity); the elements are
    the old ones with \<open>x\<close> put in at index \<open>i\<close>, those from \<open>i\<close> on one place
    further and in their order; the size is one more; the iterator returned points at
    index \<open>i\<close> of the array as it now is, where \<open>x\<close> is.
  \<^item> A full array that the free store refuses ends with \<open>std::bad_alloc\<close>.
  \<^item> A full array and a \<open>value\<close> that refers to an element of this array: \<open>Reserve\<close>
    has freed the block \<open>value\<close> refers to when \<open>*pos = value\<close> reads it, which is
    undefined behaviour.
  \<^item> An array with room left and \<open>value\<close> referring to its element \<open>k\<close>: the shift
    comes before the read, so what is put in at \<open>i\<close> is the old element \<open>k\<close> only
    for \<open>k \<le> i\<close>, and the old element \<open>k - 1\<close> for \<open>k > i\<close>.

  The witness is the scenario, 42 inserted at index 2 of \<open>[1,2,3,4]\<close> giving
  \<open>[1,2,42,3,4]\<close>, and \<open>v.Insert(v.begin() + 1, v[2])\<close> on \<open>[1,2,3,4]\<close>, once
  with capacity 8, which gives \<open>[1,2,2,3,4]\<close> where \<open>v[2]\<close> was 3, and once with
  capacity 4.
\<close>

theorem Insert_contract:
  fixes h :: "('a::default) heap"
  assumes wf: "well_formed h v" and cap: "capacity_' v \<le> max_array"
    and i: "i < size_' v" and rd: "read_ref val h = Inr x"
  shows
   "((size_' v = capacity_' v \<longrightarrow> granted room (doubled (capacity_' v))) \<and>
     \<not> refers_into val v \<longrightarrow>
     (\<exists>p v' h'. Insert room (std_next_n (begin_iter v) i) val v h = Inr (p, v', h') \<and>
        Insert_move room (std_next_n (begin_iter v) i) val v h = Inr (p, v', h') \<and>
        well_formed h' v' \<and>
        capacity_' v' = (if size_' v = capacity_' v
                         then (if capacity_' v = 0 then 1 else capacity_' v * 2)
                         else capacity_' v) \<and>
        (\<exists>w g. PushBack room val v h = Inr (w, g) \<and> capacity_' v' = capacity_' w) \<and>
        size_' v' = size_' v + 1 \<and>
        elems h' v' = take i (elems h v) @ [x] @ drop i (elems h v) \<and>
        p = std_next_n (begin_iter v') i \<and> load p h' = Inr x)) \<and>
    (size_' v = capacity_' v \<and> \<not> granted room (doubled (capacity_' v)) \<longrightarrow>
       Insert room (std_next_n (begin_iter v) i) val v h = Inl bad_alloc \<and>
       Insert_move room (std_next_n (begin_iter v) i) val v h = Inl bad_alloc) \<and>
    (size_' v = capacity_' v \<and> granted room (doubled (capacity_' v)) \<and> refers_into val v \<longrightarrow>
       Insert room (std_next_n (begin_iter v) i) val v h = Inl undefined_behaviour \<and>
       Insert_move room (std_next_n (begin_iter v) i) val v h = Inl undefined_behaviour) \<and>
    (size_' v \<noteq> capacity_' v \<longrightarrow>
       (\<forall>k<size_' v. \<exists>p v' h'.
          Insert room (std_next_n (begin_iter v) i) (Element (std_next_n (begin_iter v) k)) v h
            = Inr (p, v', h') \<and>
          Insert_move room (std_next_n (begin_iter v) i)
            (Element (std_next_n (begin_iter v) k)) v h = Inr (p, v', h') \<and>
          well_formed h' v' \<and> size_' v' = size_' v + 1 \<and> capacity_' v' = capacity_' v \<and>
          elems h' v' = take i (elems h v) @ [elems h v ! (if k \<le> i then k else k - 1)]
                          @ drop i (elems h v) \<and>
          p = std_next_n (begin_iter v') i))"
proof -
  from wf obtain xs where xs: "buffer h v = Some xs" by (rule wfE)
  have A: "\<exists>p v' h'. Insert room (std_next_n (begin_iter v) i) val v h = Inr (p, v', h') \<and>
        Insert_move room (std_next_n (begin_iter v) i) val v h = Inr (p, v', h') \<and>
        well_formed h' v' \<and>
        capacity_' v' = (if size_' v = capacity_' v
                         then (if capacity_' v = 0 then 1 else capacity_' v * 2)
                         else capacity_' v) \<and>
        (\<exists>w g. PushBack room val v h = Inr (w, g) \<and> capacity_' v' = capacity_' w) \<and>
        size_' v' = size_' v + 1 \<and>
        elems h' v' = take i (elems h v) @ [x] @ drop i (elems h v) \<and>
        p = std_next_n (begin_iter v') i \<and> load p h' = Inr x"
    if gr: "size_' v = capacity_' v \<Longrightarrow> granted room (doubled (capacity_' v))"
      and ap: "\<not> refers_into val v"
  proof (rule Insert_returns[OF wf xs cap gr i rd ap], goal_cases)
    case 1 then show ?case .
  next
    case q: (2 p v' h')
    have pb: "\<exists>w g. PushBack room val v h = Inr (w, g) \<and> capacity_' v' = capacity_' w"
    proof (rule PushBack_returns[OF wf xs cap gr rd ap], goal_cases)
      case 1 then show ?case .
    next
      case (2 w g)
      then show ?case using q(4) by simp
    qed
    show ?case
      using q(1-7) pb
      by (intro exI[of _ p] exI[of _ v'] exI[of _ h']) (simp add: Insert_move_eq)
  qed
  have B: "Insert room (std_next_n (begin_iter v) i) val v h = Inl bad_alloc"
    if "size_' v = capacity_' v" "\<not> granted room (doubled (capacity_' v))"
    by (rule Insert_refused[OF _ i cap that]) (simp add: std_next_n_def begin_iter_def ArrayPtr_subscript_def)
  have C: "Insert room (std_next_n (begin_iter v) i) val v h = Inl undefined_behaviour"
    if "size_' v = capacity_' v" "granted room (doubled (capacity_' v))" "refers_into val v"
    by (rule Insert_dangling[OF wf cap that(1,2) i that(3)])
  have D: "\<exists>p v' h'.
          Insert room (std_next_n (begin_iter v) i) (Element (std_next_n (begin_iter v) k)) v h
            = Inr (p, v', h') \<and>
          Insert_move room (std_next_n (begin_iter v) i)
            (Element (std_next_n (begin_iter v) k)) v h = Inr (p, v', h') \<and>
          well_formed h' v' \<and> size_' v' = size_' v + 1 \<and> capacity_' v' = capacity_' v \<and>
          elems h' v' = take i (elems h v) @ [elems h v ! (if k \<le> i then k else k - 1)]
                          @ drop i (elems h v) \<and>
          p = std_next_n (begin_iter v') i"
    if nf: "size_' v \<noteq> capacity_' v" and k: "k < size_' v" for k
  proof (rule Insert_aliased[OF wf cap nf i k, of room], goal_cases)
    case q: (1 p v' h')
    show ?case
      using q(1-6)
      by (intro exI[of _ p] exI[of _ v'] exI[of _ h']) (simp add: Insert_move_eq)
  qed
  show ?thesis
  proof (intro conjI impI allI)
    assume "(size_' v = capacity_' v \<longrightarrow> granted room (doubled (capacity_' v))) \<and>
      \<not> refers_into val v"
    then show "\<exists>p v' h'. Insert room (std_next_n (begin_iter v) i) val v h = Inr (p, v', h') \<and>
        Insert_move room (std_next_n (begin_iter v) i) val v h = Inr (p, v', h') \<and>
        well_formed h' v' \<and>
        capacity_' v' = (if size_' v = capacity_' v
                         then (if capacity_' v = 0 then 1 else capacity_' v * 2)
                         else capacity_' v) \<and>
        (\<exists>w g. PushBack room val v h = Inr (w, g) \<and> capacity_' v' = capacity_' w) \<and>
        size_' v' = size_' v + 1 \<and>
        elems h' v' = take i (elems h v) @ [x] @ drop i (elems h v) \<and>
        p = std_next_n (begin_iter v') i \<and> load p h' = Inr x"
      by (intro A) simp_all
  next
    assume a: "size_' v = capacity_' v \<and> \<not> granted room (doubled (capacity_' v))"
    then show "Insert room (std_next_n (begin_iter v) i) val v h = Inl bad_alloc"
      by (intro B) simp_all
    from a show "Insert_move room (std_next_n (begin_iter v) i) val v h = Inl bad_alloc"
      unfolding Insert_move_eq by (intro B) simp_all
  next
    assume a: "size_' v = capacity_' v \<and> granted room (doubled (capacity_' v)) \<and>
      refers_into val v"
    then show "Insert room (std_next_n (begin_iter v) i) val v h = Inl undefined_behaviour"
      by (intro C) simp_all
    from a show "Insert_move room (std_next_n (begin_iter v) i) val v h
        = Inl undefined_behaviour"
      unfolding Insert_move_eq by (intro C) simp_all
  next
    fix k
    assume "size_' v \<noteq> capacity_' v" "k < size_' v"
    then show "\<exists>p v' h'.
          Insert room (std_next_n (begin_iter v) i) (Element (std_next_n (begin_iter v) k)) v h
            = Inr (p, v', h') \<and>
          Insert_move room (std_next_n (begin_iter v) i)
            (Element (std_next_n (begin_iter v) k)) v h = Inr (p, v', h') \<and>
          well_formed h' v' \<and> size_' v' = size_' v + 1 \<and> capacity_' v' = capacity_' v \<and>
          elems h' v' = take i (elems h v) @ [elems h v ! (if k \<le> i then k else k - 1)]
                          @ drop i (elems h v) \<and>
          p = std_next_n (begin_iter v') i"
      by (rule D)
  qed
qed

theorem Insert_contract_witness:
  "well_formed [Some [Some (1::int), Some 2, Some 3, Some 4]]
     \<lparr>size_' = 4, capacity_' = 4, items_' = \<lparr>raw_ptr_' = Some 0\<rparr>\<rparr> \<and>
   elems [Some [Some (1::int), Some 2, Some 3, Some 4]]
     \<lparr>size_' = 4, capacity_' = 4, items_' = \<lparr>raw_ptr_' = Some 0\<rparr>\<rparr> = [1, 2, 3, 4] \<and>
   (\<exists>p v' h'. Insert_move 100 (Some 0, 2) (Object 42)
        \<lparr>size_' = 4, capacity_' = 4, items_' = \<lparr>raw_ptr_' = Some 0\<rparr>\<rparr>
        [Some [Some (1::int), Some 2, Some 3, Some 4]] = Inr (p, v', h') \<and>
      elems h' v' = [1, 2, 42, 3, 4] \<and> size_' v' = 5 \<and> capacity_' v' = 8 \<and>
      load p h' = Inr 42) \<and>
   read_ref (Element (Some 0, 2)) [Some [Some (1::int), Some 2, Some 3, Some 4]] = Inr 3 \<and>
   Insert 100 (Some 0, 1) (Element (Some 0, 2))
        \<lparr>size_' = 4, capacity_' = 4, items_' = \<lparr>raw_ptr_' = Some 0\<rparr>\<rparr>
        [Some [Some (1::int), Some 2, Some 3, Some 4]] = Inl undefined_behaviour \<and>
   Insert 7 (Some 0, 1) (Object 42)
        \<lparr>size_' = 4, capacity_' = 4, items_' = \<lparr>raw_ptr_' = Some 0\<rparr>\<rparr>
        [Some [Some (1::int), Some 2, Some 3, Some 4]] = Inl bad_alloc \<and>
   well_formed [Some [Some (1::int), Some 2, Some 3, Some 4, None, None, None, None]]
     \<lparr>size_' = 4, capacity_' = 8, items_' = \<lparr>raw_ptr_' = Some 0\<rparr>\<rparr> \<and>
   read_ref (Element (Some 0, 2))
     [Some [Some (1::int), Some 2, Some 3, Some 4, None, None, None, None]] = Inr 3 \<and>
   (\<exists>p v' h'. Insert 100 (Some 0, 1) (Element (Some 0, 2))
        \<lparr>size_' = 4, capacity_' = 8, items_' = \<lparr>raw_ptr_' = Some 0\<rparr>\<rparr>
        [Some [Some (1::int), Some 2, Some 3, Some 4, None, None, None, None]]
          = Inr (p, v', h') \<and>
      elems h' v' = [1, 2, 2, 3, 4])"
proof -
  let ?h = "[Some [Some (1::int), Some 2, Some 3, Some 4]]"
  let ?v = "\<lparr>size_' = 4, capacity_' = 4, items_' = \<lparr>raw_ptr_' = Some 0\<rparr>\<rparr>"
  let ?g = "[Some [Some (1::int), Some 2, Some 3, Some 4, None, None, None, None]]"
  let ?u = "\<lparr>size_' = 4, capacity_' = 8, items_' = \<lparr>raw_ptr_' = Some 0\<rparr>\<rparr>"
  have w: "well_formed ?h ?v" by (simp add: well_formed_def buffer_def block_at_def)
  have c: "capacity_' ?v \<le> max_array" by (simp add: max_array_def)
  have e: "elems ?h ?v = [1, 2, 3, 4]" by (simp add: elems_def buffer_def block_at_def)
  have g: "granted 100 8" "\<not> granted 7 8" by (simp_all add: granted_def max_array_def)
  have p1: "std_next_n (begin_iter ?v) (Suc 0) = (Some 0, Suc 0)"
    and p2: "std_next_n (begin_iter ?v) 2 = (Some 0, 2)"
    and q1: "std_next_n (begin_iter ?u) 1 = (Some 0, 1)"
    and q1s: "std_next_n (begin_iter ?u) (Suc 0) = (Some 0, Suc 0)"
    and q2: "std_next_n (begin_iter ?u) 2 = (Some 0, 2)"
    by (simp_all add: std_next_n_def begin_iter_def ArrayPtr_subscript_def)
  have r3: "read_ref (Element (Some 0, 2)) ?h = Inr 3" by (simp add: load_def block_at_def)
  have 1: "\<exists>p v' h'. Insert_move 100 (Some 0, 2) (Object 42) ?v ?h = Inr (p, v', h') \<and>
      elems h' v' = [1, 2, 42, 3, 4] \<and> size_' v' = 5 \<and> capacity_' v' = 8 \<and>
      load p h' = Inr 42"
    using Insert_contract[OF w c, of 2 "Object 42" 42 100] g
    by (simp add: doubled_def e p2) blast
  have 2: "Insert 100 (Some 0, 1) (Element (Some 0, 2)) ?v ?h = Inl undefined_behaviour"
    using Insert_contract[OF w c _ r3, of 1 100] g
    by (simp add: doubled_def refers_into_def p1)
  have 3: "Insert 7 (Some 0, 1) (Object 42) ?v ?h = Inl bad_alloc"
    using Insert_contract[OF w c, of 1 "Object 42" 42 7] g
    by (simp add: doubled_def p1)
  have w': "well_formed ?g ?u" by (simp add: well_formed_def buffer_def block_at_def)
  have c': "capacity_' ?u \<le> max_array" by (simp add: max_array_def)
  have e': "elems ?g ?u = [1, 2, 3, 4]" by (simp add: elems_def buffer_def block_at_def)
  have r3': "read_ref (Element (Some 0, 2)) ?g = Inr 3" by (simp add: load_def block_at_def)
  have i1: "1 < size_' ?u" and k2: "2 < size_' ?u" and nf: "size_' ?u \<noteq> capacity_' ?u"
    by simp_all
  have rd0: "read_ref (Object 0) ?g = Inr 0" by simp
  note r = Insert_contract[OF w' c' i1 rd0, of 100,
      THEN conjunct2, THEN conjunct2, THEN conjunct2, rule_format, OF nf k2]
  have 4: "\<exists>p v' h'. Insert 100 (Some 0, 1) (Element (Some 0, 2)) ?u ?g = Inr (p, v', h') \<and>
      elems h' v' = [1, 2, 2, 3, 4]"
    using r by (simp add: q1 q1s q2 e') blast
  from w e 1 r3 2 3 w' r3' 4 show ?thesis by blast
qed

text \<open>
  C2 as stated fails: on \<open>[1, 2, 3, 4]\<close> with capacity 8,
  \<open>v.Insert(v.begin() + 1, v[2])\<close> is called with the value 3 and leaves
  \<open>[1, 2, 2, 3, 4]\<close>; and with a free store that gives no more than 7 elements,
  \<open>Insert(begin + 1, 42)\<close> on the full array \<open>[1, 2, 3, 4]\<close> ends with
  \<open>std::bad_alloc\<close>.
\<close>
theorem Insert_after_shift:
  "read_ref (Element (Some 0, 2))
     [Some [Some (1::int), Some 2, Some 3, Some 4, None, None, None, None]] = Inr 3 \<and>
   Insert 100 (Some 0, 1) (Element (Some 0, 2))
     \<lparr>size_' = 4, capacity_' = 8, items_' = \<lparr>raw_ptr_' = Some 0\<rparr>\<rparr>
     [Some [Some (1::int), Some 2, Some 3, Some 4, None, None, None, None]]
     = Inr ((Some 0, 1), \<lparr>size_' = 5, capacity_' = 8, items_' = \<lparr>raw_ptr_' = Some 0\<rparr>\<rparr>,
            [Some [Some 1, Some 2, Some 2, Some 3, Some 4, None, None, None]]) \<and>
   Insert 7 (Some 0, 1) (Object 42)
     \<lparr>size_' = 4, capacity_' = 4, items_' = \<lparr>raw_ptr_' = Some 0\<rparr>\<rparr>
     [Some [Some (1::int), Some 2, Some 3, Some 4]] = Inl bad_alloc"
proof (intro conjI)
  show "read_ref (Element (Some 0, 2))
     [Some [Some (1::int), Some 2, Some 3, Some 4, None, None, None, None]] = Inr 3"
    by (simp add: load_def block_at_def)
  show "Insert 7 (Some 0, 1) (Object 42)
     \<lparr>size_' = 4, capacity_' = 4, items_' = \<lparr>raw_ptr_' = Some 0\<rparr>\<rparr>
     [Some [Some (1::int), Some 2, Some 3, Some 4]] = Inl bad_alloc"
    by (rule Insert_refused[where i = 1])
       (simp_all add: granted_def max_array_def doubled_def)
  show "Insert 100 (Some 0, 1) (Element (Some 0, 2))
     \<lparr>size_' = 4, capacity_' = 8, items_' = \<lparr>raw_ptr_' = Some 0\<rparr>\<rparr>
     [Some [Some (1::int), Some 2, Some 3, Some 4, None, None, None, None]]
     = Inr ((Some 0, 1), \<lparr>size_' = 5, capacity_' = 8, items_' = \<lparr>raw_ptr_' = Some 0\<rparr>\<rparr>,
            [Some [Some 1, Some 2, Some 2, Some 3, Some 4, None, None, None]])"
    by (simp add: Insert_def ptr_ge_def ptr_less_def begin_iter_def end_iter_def cbegin_def
        std_distance_def std_next_n_def std_next_def ArrayPtr_subscript_def
        std_copy_backward.simps load_def store_def block_at_def size_t_def max_array_def)
qed




text \<open>
  C4 (as amended). Move-construction leaves the moved-from buffer empty. Move-assignment
  exchanges the two handles unless they are equal: afterwards the source holds what the
  destination held before the call, so it is empty exactly when the destination was, and
  the destination holds what the source held.
\<close>
theorem ArrayPtr_move_source:
  "\<not> ArrayPtr_bool (snd (ArrayPtr_move_construct other)) \<and>
   Get (fst (ArrayPtr_move_construct other)) = Get other \<and>
   Get (snd (ArrayPtr_move_assign this other)) = Get this \<and>
   Get (fst (ArrayPtr_move_assign this other)) = Get other \<and>
   ArrayPtr_bool (snd (ArrayPtr_move_assign this other)) = ArrayPtr_bool this"
  by (simp add: ArrayPtr_move_construct_def ArrayPtr_move_assign_def ArrayPtr_bool_def Get_def)

text \<open>
  C4 as stated fails: move-assigning into a buffer that owns block 0 from one that owns
  block 1 leaves the source owning block 0.
\<close>
theorem ArrayPtr_move_assign_source_owns:
  "ArrayPtr_bool (snd (ArrayPtr_move_assign (ArrayPtr_adopt (Some 0)) (ArrayPtr_adopt (Some 1))))"
  by (simp add: ArrayPtr_move_assign_def ArrayPtr_bool_def ArrayPtr_adopt_def)

text \<open>
  C5. \<open>At(i)\<close> throws \<open>out_of_range\<close> exactly when \<open>i \<ge> size\<close>; for
  \<open>i < size\<close> it returns the reference \<open>operator[]\<close> returns, the element
  \<open>i\<close> of the buffer; either way the array and the heap are as before the call.
\<close>
theorem At_contract:
  "(fst (At i v h) = Inl out_of_range \<longleftrightarrow> size_' v \<le> i) \<and>
   ((\<exists>e. fst (At i v h) = Inl e) \<longleftrightarrow> size_' v \<le> i) \<and>
   (i < size_' v \<longrightarrow>
      fst (At i v h) = operator_subscript i v \<and>
      fst (At i v h) = Inr (ArrayPtr_subscript (items_' v) i)) \<and>
   snd (At i v h) = (v, h)"
  by (simp add: At_def operator_subscript_def)

theorem At_contract_witness:
  "(2::nat) < size_' \<lparr>size_' = 3, capacity_' = 3, items_' = \<lparr>raw_ptr_' = Some 0\<rparr>\<rparr> \<and>
   fst (At 2 \<lparr>size_' = 3, capacity_' = 3, items_' = \<lparr>raw_ptr_' = Some 0\<rparr>\<rparr>
          [Some [Some (0::int), Some 0, Some 0]]) = Inr (Some 0, 2) \<and>
   fst (At 3 \<lparr>size_' = 3, capacity_' = 3, items_' = \<lparr>raw_ptr_' = Some 0\<rparr>\<rparr>
          [Some [Some (0::int), Some 0, Some 0]]) = Inl out_of_range"
  using At_contract[of 2 "\<lparr>size_' = 3, capacity_' = 3, items_' = \<lparr>raw_ptr_' = Some 0\<rparr>\<rparr>"
          "[Some [Some (0::int), Some 0, Some 0]]"]
        At_contract[of 3 "\<lparr>size_' = 3, capacity_' = 3, items_' = \<lparr>raw_ptr_' = Some 0\<rparr>\<rparr>"
          "[Some [Some (0::int), Some 0, Some 0]]"]
  by (simp add: ArrayPtr_subscript_def operator_subscript_def)

text \<open>
  C6 (as amended). Every constructor and public operation takes a state in which every
  live array is sound to one in which every live array is sound, so every array a program
  can reach is: \<open>size \<le> capacity\<close>, the array holds one buffer of at least
  \<open>capacity\<close> slots (none, for capacity 0), of which the first \<open>size\<close> hold
  values, and that buffer has exactly \<open>capacity\<close> slots unless the array has size 0
  and capacity 0, as one that has been moved from by move-assignment has while it holds
  the buffer that was the destination's.
\<close>
theorem invariant_preserved:
  fixes w :: "('a::default) world"
  shows "(world_inv w \<and> step w w' \<longrightarrow> world_inv w') \<and>
         (reachable w \<longrightarrow> world_inv w) \<and>
         (world_inv w \<and> vectors w x = Some v \<longrightarrow>
            size_' v \<le> capacity_' v \<and>
            (\<exists>xs. buffer (memory w) v = Some xs \<and> capacity_' v \<le> length xs \<and>
                  (\<forall>m<size_' v. xs ! m \<noteq> None) \<and>
                  (length xs = capacity_' v \<or> size_' v = 0 \<and> capacity_' v = 0)))"
proof (intro conjI impI)
  assume "world_inv w \<and> step w w'"
  then show "world_inv w'" by (auto intro: step_preserves)
next
  assume "reachable w"
  then show "world_inv w" by (rule reachable_world_inv)
next
  assume a: "world_inv w \<and> vectors w x = Some v"
  then have g: "good (memory w) v" by (auto intro: world_inv_good)
  from good_wf[OF g] obtain xs where xs: "buffer (memory w) v = Some xs"
    and le: "size_' v \<le> capacity_' v" and cl: "capacity_' v \<le> length xs"
    and init: "\<forall>m<size_' v. xs ! m \<noteq> None" by (rule wfE)
  from le show "size_' v \<le> capacity_' v" .
  from goodD[OF g xs] xs cl init
  show "\<exists>xs. buffer (memory w) v = Some xs \<and> capacity_' v \<le> length xs \<and>
                  (\<forall>m<size_' v. xs ! m \<noteq> None) \<and>
                  (length xs = capacity_' v \<or> size_' v = 0 \<and> capacity_' v = 0)"
    by blast
qed

theorem invariant_preserved_witness:
  "reachable
     \<lparr>vectors = [0 \<mapsto> \<lparr>size_' = 1, capacity_' = 1, items_' = \<lparr>raw_ptr_' = Some 1\<rparr>\<rparr>,
                 1 \<mapsto> \<lparr>size_' = 0, capacity_' = 0, items_' = \<lparr>raw_ptr_' = Some 0\<rparr>\<rparr>],
      memory = [Some [Some 1, Some 2], Some [Some (3::int)]]\<rparr> \<and>
   world_inv
     \<lparr>vectors = [0 \<mapsto> \<lparr>size_' = 1, capacity_' = 1, items_' = \<lparr>raw_ptr_' = Some 1\<rparr>\<rparr>,
                 1 \<mapsto> \<lparr>size_' = 0, capacity_' = 0, items_' = \<lparr>raw_ptr_' = Some 0\<rparr>\<rparr>],
      memory = [Some [Some 1, Some 2], Some [Some (3::int)]]\<rparr> \<and>
   step
     \<lparr>vectors = [0 \<mapsto> \<lparr>size_' = 1, capacity_' = 1, items_' = \<lparr>raw_ptr_' = Some 1\<rparr>\<rparr>,
                 1 \<mapsto> \<lparr>size_' = 0, capacity_' = 0, items_' = \<lparr>raw_ptr_' = Some 0\<rparr>\<rparr>],
      memory = [Some [Some 1, Some 2], Some [Some (3::int)]]\<rparr>
     \<lparr>vectors = [0 \<mapsto> \<lparr>size_' = 0, capacity_' = 1, items_' = \<lparr>raw_ptr_' = Some 1\<rparr>\<rparr>,
                 1 \<mapsto> \<lparr>size_' = 0, capacity_' = 0, items_' = \<lparr>raw_ptr_' = Some 0\<rparr>\<rparr>],
      memory = [Some [Some 1, Some 2], Some [Some (3::int)]]\<rparr> \<and>
   world_inv
     \<lparr>vectors = [0 \<mapsto> \<lparr>size_' = 0, capacity_' = 1, items_' = \<lparr>raw_ptr_' = Some 1\<rparr>\<rparr>,
                 1 \<mapsto> \<lparr>size_' = 0, capacity_' = 0, items_' = \<lparr>raw_ptr_' = Some 0\<rparr>\<rparr>],
      memory = [Some [Some 1, Some 2], Some [Some (3::int)]]\<rparr> \<and>
   buffer [Some [Some 1, Some 2], Some [Some (3::int)]]
     \<lparr>size_' = 1, capacity_' = 1, items_' = \<lparr>raw_ptr_' = Some 1\<rparr>\<rparr> = Some [Some 3] \<and>
   buffer [Some [Some 1, Some 2], Some [Some (3::int)]]
     \<lparr>size_' = 0, capacity_' = 0, items_' = \<lparr>raw_ptr_' = Some 0\<rparr>\<rparr> = Some [Some 1, Some 2]"
proof -
  let ?a = "\<lparr>size_' = 1, capacity_' = 1, items_' = \<lparr>raw_ptr_' = Some 1\<rparr>\<rparr>"
  let ?b = "\<lparr>size_' = 0, capacity_' = 0, items_' = \<lparr>raw_ptr_' = Some 0\<rparr>\<rparr>"
  let ?h = "[Some [Some 1, Some 2], Some [Some (3::int)]]"
  let ?w = "\<lparr>vectors = [0 \<mapsto> ?a, 1 \<mapsto> ?b], memory = ?h\<rparr>"
  let ?w' = "\<lparr>vectors = [0 \<mapsto> \<lparr>size_' = 0, capacity_' = 1, items_' = \<lparr>raw_ptr_' = Some 1\<rparr>\<rparr>,
                         1 \<mapsto> ?b], memory = ?h\<rparr>"
  note C = invariant_preserved[of ?w ?w' 0 ?a]
  have r: "reachable ?w" by (rule moved_from_reachable)
  with C have i: "world_inv ?w" by blast
  have "step ?w (?w\<lparr>vectors := (vectors ?w)(0 \<mapsto> PopBack ?a)\<rparr>)"
    by (rule call_PopBack) simp
  moreover have "(vectors ?w)(0 \<mapsto> PopBack ?a) = vectors ?w'"
    by (rule ext) (simp add: PopBack_def)
  ultimately have s: "step ?w ?w'" by simp
  from C i s have i': "world_inv ?w'" by blast
  show ?thesis
    using r i s i' by (simp add: buffer_def block_at_def)
qed

text \<open>
  C6 as stated fails: after \<open>SimpleVector<int> a{1, 2}; SimpleVector<int> b{3};
  a = std::move(b);\<close> the array \<open>b\<close> has capacity 0 and owns the two slots that were
  \<open>a\<close>'s.
\<close>
theorem move_assign_source_keeps_buffer:
  "reachable
     \<lparr>vectors = [0 \<mapsto> \<lparr>size_' = 1, capacity_' = 1, items_' = \<lparr>raw_ptr_' = Some 1\<rparr>\<rparr>,
                 1 \<mapsto> \<lparr>size_' = 0, capacity_' = 0, items_' = \<lparr>raw_ptr_' = Some 0\<rparr>\<rparr>],
      memory = [Some [Some 1, Some 2], Some [Some (3::int)]]\<rparr> \<and>
   buffer [Some [Some 1, Some 2], Some [Some (3::int)]]
     \<lparr>size_' = 0, capacity_' = 0, items_' = \<lparr>raw_ptr_' = Some 0\<rparr>\<rparr> = Some [Some 1, Some 2] \<and>
   \<not> exact [Some [Some 1, Some 2], Some [Some (3::int)]]
     \<lparr>size_' = 0, capacity_' = 0, items_' = \<lparr>raw_ptr_' = Some 0\<rparr>\<rparr>"
  using moved_from_reachable by (simp add: exact_def buffer_def block_at_def)




text \<open>
  C8. For well-formed arrays \<open>a\<close> and \<open>b\<close> over a linearly ordered element type,
  \<open>a == b\<close> is true exactly when the sizes are equal and the elements agree index by
  index; \<open>==\<close> is reflexive and symmetric; and when \<open>a == b\<close> neither \<open>a < b\<close>
  nor \<open>b < a\<close>.
\<close>
theorem comparison_contract:
  fixes h :: "('a::linorder) heap"
  assumes a: "well_formed h a" and b: "well_formed h b"
  shows "operator_eq a b h =
           Inr (GetSize a = GetSize b \<and> (\<forall>i<GetSize a. elems h a ! i = elems h b ! i)) \<and>
         operator_eq a a h = Inr True \<and>
         operator_eq b a h = operator_eq a b h \<and>
         (operator_eq a b h = Inr True \<longrightarrow>
            operator_less a b h = Inr False \<and> operator_less b a h = Inr False)"
proof -
  have 1: "(elems h a = elems h b) =
           (GetSize a = GetSize b \<and> (\<forall>i<GetSize a. elems h a ! i = elems h b ! i))"
    using length_elems[OF a] length_elems[OF b]
    by (auto simp: GetSize_def list_eq_iff_nth_eq)
  have 2: "operator_eq b a h = operator_eq a b h"
    by (auto simp: operator_eq_elems[OF a b] operator_eq_elems[OF b a])
  have 3: "operator_less a b h = Inr False \<and> operator_less b a h = Inr False"
    if "operator_eq a b h = Inr True"
    using that
    by (simp add: operator_eq_elems[OF a b] operator_less_elems[OF a b]
        operator_less_elems[OF b a] lexordp_irreflexive')
  show ?thesis
    using 1 2 3 by (simp add: operator_eq_elems[OF a b] operator_eq_elems[OF a a])
qed

theorem comparison_contract_witness:
  "well_formed [Some [Some (1::int), Some 2], Some [Some 1, Some 2, None]]
     \<lparr>size_' = 2, capacity_' = 2, items_' = \<lparr>raw_ptr_' = Some 0\<rparr>\<rparr> \<and>
   well_formed [Some [Some (1::int), Some 2], Some [Some 1, Some 2, None]]
     \<lparr>size_' = 2, capacity_' = 3, items_' = \<lparr>raw_ptr_' = Some 1\<rparr>\<rparr> \<and>
   operator_eq \<lparr>size_' = 2, capacity_' = 2, items_' = \<lparr>raw_ptr_' = Some 0\<rparr>\<rparr>
     \<lparr>size_' = 2, capacity_' = 3, items_' = \<lparr>raw_ptr_' = Some 1\<rparr>\<rparr>
     [Some [Some (1::int), Some 2], Some [Some 1, Some 2, None]] = Inr True \<and>
   operator_less \<lparr>size_' = 2, capacity_' = 2, items_' = \<lparr>raw_ptr_' = Some 0\<rparr>\<rparr>
     \<lparr>size_' = 2, capacity_' = 3, items_' = \<lparr>raw_ptr_' = Some 1\<rparr>\<rparr>
     [Some [Some (1::int), Some 2], Some [Some 1, Some 2, None]] = Inr False"
proof -
  let ?h = "[Some [Some (1::int), Some 2], Some [Some 1, Some 2, None]]"
  let ?a = "\<lparr>size_' = 2, capacity_' = 2, items_' = \<lparr>raw_ptr_' = Some 0\<rparr>\<rparr>"
  let ?b = "\<lparr>size_' = 2, capacity_' = 3, items_' = \<lparr>raw_ptr_' = Some 1\<rparr>\<rparr>"
  have a: "well_formed ?h ?a" by (simp add: well_formed_def buffer_def block_at_def)
  have b: "well_formed ?h ?b" by (simp add: well_formed_def buffer_def block_at_def)
  have e: "elems ?h ?a = [1, 2]" "elems ?h ?b = [1, 2]"
    by (simp_all add: elems_def buffer_def block_at_def)
  from comparison_contract[OF a b] a b e show ?thesis
    by (simp add: GetSize_def nth_Cons' All_less_Suc2 flip: One_nat_def)
qed

text \<open>
  C9. Two default-constructed arrays are distinct objects and both hold the null handle,
  so \<open>a = b\<close> fails \<open>assert(this->items_.Get() != rhs.items_.Get())\<close>; the copy
  constructor, which runs the same copy without the assertion, gives the empty copy.
\<close>
theorem copy_assign_empty_asserts:
  "reachable \<lparr>vectors = [0 \<mapsto> SimpleVector_default, 1 \<mapsto> SimpleVector_default],
              memory = ([] :: int heap)\<rparr> \<and>
   Get (items_' SimpleVector_default) = None \<and>
   copy_assign 0 SimpleVector_default SimpleVector_default ([] :: int heap)
     = Inl assertion_failed \<and>
   SimpleVector_copy 0 SimpleVector_default ([] :: int heap) =
     Inr (\<lparr>size_' = 0, capacity_' = 0, items_' = \<lparr>raw_ptr_' = None\<rparr>\<rparr>, [])"
proof -
  have w: "well_formed ([] :: int heap) SimpleVector_default"
    by (simp add: well_formed_def buffer_def SimpleVector_default_def ArrayPtr_default_def)
  have b: "buffer ([] :: int heap) SimpleVector_default = Some []"
    by (simp add: buffer_def SimpleVector_default_def ArrayPtr_default_def)
  have z: "size_' SimpleVector_default = 0 \<or> granted 0 (size_' SimpleVector_default)"
    by (simp add: SimpleVector_default_def)
  have c: "SimpleVector_copy 0 SimpleVector_default ([] :: int heap) =
     Inr (\<lparr>size_' = 0, capacity_' = 0, items_' = \<lparr>raw_ptr_' = None\<rparr>\<rparr>, [])"
    unfolding SimpleVector_copy_effect[OF w b z] by (simp add: SimpleVector_default_def)
  have a: "copy_assign 0 SimpleVector_default SimpleVector_default ([] :: int heap) =
      Inl assertion_failed"
    by (simp add: copy_assign_def)
  have n: "Get (items_' SimpleVector_default) = None"
    by (simp add: Get_def SimpleVector_default_def ArrayPtr_default_def)
  from two_empty_reachable n a c show ?thesis by blast
qed

text \<open>
  C10. After \<open>SimpleVector<int> v(3); v.Resize(1);\<close> the call \<open>v.Resize(2)\<close> takes
  the branch \<open>new_size > size_ && new_size <= capacity_\<close>, where it indexes the buffer
  of 3 slots with 6, 1 and 2. The first, \<open>&items_[6]\<close>, is beyond the buffer and its
  end; its address is formed and never used, so the call returns what C1 says, but a
  read through it would be undefined.
\<close>
theorem Resize_stray_subscript:
  "reachable \<lparr>vectors = [0 \<mapsto> \<lparr>size_' = 1, capacity_' = 3, items_' = \<lparr>raw_ptr_' = Some 0\<rparr>\<rparr>],
              memory = [Some [Some (0::int), Some 0, Some 0]]\<rparr> \<and>
   Resize_fill_subscripts 2 \<lparr>size_' = 1, capacity_' = 3, items_' = \<lparr>raw_ptr_' = Some 0\<rparr>\<rparr>
     = [6, 1, 2] \<and>
   \<not> 6 \<le> capacity_' \<lparr>size_' = 1, capacity_' = 3, items_' = \<lparr>raw_ptr_' = Some 0\<rparr>\<rparr> \<and>
   ArrayPtr_subscript (items_' \<lparr>size_' = 1, capacity_' = 3, items_' = \<lparr>raw_ptr_' = Some 0\<rparr>\<rparr>) 6
     = (Some 0, 6) \<and>
   load (Some 0, 6) [Some [Some (0::int), Some 0, Some 0]] = Inl undefined_behaviour \<and>
   Resize 0 2 \<lparr>size_' = 1, capacity_' = 3, items_' = \<lparr>raw_ptr_' = Some 0\<rparr>\<rparr>
     [Some [Some (0::int), Some 0, Some 0]] =
     Inr (\<lparr>size_' = 2, capacity_' = 3, items_' = \<lparr>raw_ptr_' = Some 0\<rparr>\<rparr>,
          [Some [Some 0, Some 0, Some 0]])"
proof -
  let ?h = "[Some [Some (0::int), Some 0, Some 0]]"
  have blk: "block_at ?h 0 = Some [Some 0, Some 0, Some 0]" by (simp add: block_at_def)
  have f: "std_fill (Some 0, Suc 0) (Some 0, 2) (Object (0::int)) ?h = Inr ?h"
    using std_fill_effect[OF blk, of "Suc 0" 2 0] by simp
  have r: "Resize 0 2 \<lparr>size_' = 1, capacity_' = 3, items_' = \<lparr>raw_ptr_' = Some 0\<rparr>\<rparr> ?h =
     Inr (\<lparr>size_' = 2, capacity_' = 3, items_' = \<lparr>raw_ptr_' = Some 0\<rparr>\<rparr>, ?h)"
    by (simp add: Resize_def FillByMove_std_fill ArrayPtr_subscript_def f default_int_def)
  show ?thesis
    using shrunk_reachable r
    by (simp add: Resize_fill_subscripts_def ArrayPtr_subscript_def load_def block_at_def)
qed


end
